theory Spec2Isabelle
  imports Main "HOL-Library.Char_ord" "HOL-Library.List_Lexorder" "HOL-Library.Sublist"
begin

section \<open>Strings, byte order and path helpers\<close>

text \<open>
  Go strings and byte slices are sequences of bytes, compared bytewise and
  lexicographically (\<^verbatim>\<open>key <= after\<close>, the B+tree key order of the embedded store).
  \<^typ>\<open>string\<close> with the orders of \<^verbatim>\<open>HOL-Library.Char_ord\<close> and
  \<^verbatim>\<open>HOL-Library.List_Lexorder\<close> is that order; \<^const>\<open>prefix\<close> is
  \<^verbatim>\<open>bytes.HasPrefix\<close>.
\<close>

type_synonym bytes = "char list"

definition TrimPrefix :: "string \<Rightarrow> string \<Rightarrow> string" where
  \<comment> \<open>\<^verbatim>\<open>strings.TrimPrefix(s, prefix)\<close>\<close>
  "TrimPrefix s pfx = (if prefix pfx s then drop (length pfx) s else s)"

definition strings_Index :: "string \<Rightarrow> char \<Rightarrow> int" where
  \<comment> \<open>\<^verbatim>\<open>strings.Index(s, "/")\<close>: the first position of the byte, or \<open>-1\<close>\<close>
  "strings_Index s c = (if c \<in> set s then int (length (takeWhile (\<lambda>x. x \<noteq> c) s)) else - 1)"

subsection \<open>\<^verbatim>\<open>filepath.Join\<close> and \<^verbatim>\<open>filepath.Clean\<close> (Unix)\<close>

text \<open>
  \<^verbatim>\<open>listPageInner\<close> computes its seek key with \<^verbatim>\<open>filepath.Join(prefix, after)\<close>,
  which cleans the joined path. The model follows the standard library's loop: \<open>out\<close> is
  the output buffer, \<open>dotdot\<close> the index where a \<^verbatim>\<open>..\<close> must stop, the last argument
  the unread rest of the path.
\<close>

fun backtrack :: "string \<Rightarrow> nat \<Rightarrow> nat \<Rightarrow> nat" where
  \<comment> \<open>\<^verbatim>\<open>for out.w > dotdot && out.index(out.w) != '/' { out.w-- }\<close>\<close>
  "backtrack out dotdot 0 = 0"
| "backtrack out dotdot (Suc w) =
     (if Suc w > dotdot \<and> out ! (Suc w) \<noteq> CHR ''/'' then backtrack out dotdot w else Suc w)"

function cleanLoop :: "bool \<Rightarrow> nat \<Rightarrow> string \<Rightarrow> string \<Rightarrow> string" where
  "cleanLoop rooted dotdot out [] = out"
| "cleanLoop rooted dotdot out (c # cs) =
     (if c = CHR ''/'' then cleanLoop rooted dotdot out cs
      else if c = CHR ''.'' \<and> (cs = [] \<or> hd cs = CHR ''/'') then cleanLoop rooted dotdot out cs
      else if c = CHR ''.'' \<and> cs \<noteq> [] \<and> hd cs = CHR ''.'' \<and> (tl cs = [] \<or> hd (tl cs) = CHR ''/'') then
        (if length out > dotdot
         then cleanLoop rooted dotdot (take (backtrack out dotdot (length out - 1)) out) (tl cs)
         else if \<not> rooted
         then cleanLoop rooted
                (length ((if length out > 0 then out @ ''/'' else out) @ ''..''))
                ((if length out > 0 then out @ ''/'' else out) @ ''..'') (tl cs)
         else cleanLoop rooted dotdot out (tl cs))
      else cleanLoop rooted dotdot
             ((if rooted \<and> length out \<noteq> 1 \<or> \<not> rooted \<and> length out \<noteq> 0 then out @ ''/'' else out)
                @ takeWhile (\<lambda>x. x \<noteq> CHR ''/'') (c # cs))
             (dropWhile (\<lambda>x. x \<noteq> CHR ''/'') (c # cs)))"
  by pat_completeness auto
termination
proof (relation "measure (\<lambda>(rooted, dotdot, out, rest). length rest)")
  fix rooted :: bool and dotdot :: nat and out :: string and c :: char and cs :: string
  assume "c \<noteq> CHR ''/''"
  then have "dropWhile (\<lambda>x. x \<noteq> CHR ''/'') (c # cs) = dropWhile (\<lambda>x. x \<noteq> CHR ''/'') cs"
    by simp
  moreover have "length (dropWhile (\<lambda>x. x \<noteq> CHR ''/'') cs) \<le> length cs"
    by (rule length_dropWhile_le)
  ultimately show "((rooted, dotdot,
       (if rooted \<and> length out \<noteq> 1 \<or> \<not> rooted \<and> length out \<noteq> 0 then out @ ''/'' else out)
         @ takeWhile (\<lambda>x. x \<noteq> CHR ''/'') (c # cs),
       dropWhile (\<lambda>x. x \<noteq> CHR ''/'') (c # cs)), rooted, dotdot, out, c # cs)
      \<in> measure (\<lambda>(rooted, dotdot, out, rest). length rest)"
    by simp
qed (auto simp: neq_Nil_conv)

definition Clean :: "string \<Rightarrow> string" where
  "Clean path =
     (if path = [] then ''.''
      else let rooted = (hd path = CHR ''/'');
               out = (if rooted then cleanLoop True 1 ''/'' (tl path)
                      else cleanLoop False 0 [] path)
           in if out = [] then ''.'' else out)"

fun strings_Join :: "string list \<Rightarrow> string \<Rightarrow> string" where
  "strings_Join [] sep = []"
| "strings_Join [e] sep = e"
| "strings_Join (e # es) sep = e @ sep @ strings_Join es sep"

fun Join :: "string list \<Rightarrow> string" where
  \<comment> \<open>\<^verbatim>\<open>filepath.Join\<close>: leading empty elements are ignored, the rest joined and cleaned\<close>
  "Join [] = []"
| "Join (e # es) = (if e \<noteq> [] then Clean (strings_Join (e # es) ''/'') else Join es)"

section \<open>The data bucket and its cursor\<close>

text \<open>
  A bucket of the embedded store is an ordered key-value table with unique keys. It is
  modelled as an association list in ascending key order (\<open>bucket_ok\<close>); a cursor
  \<^verbatim>\<open>Seek\<close> moves to the first key not below the sought one, \<^verbatim>\<open>Next\<close> to the following
  entry.
\<close>

type_synonym bucket = "(string \<times> bytes) list"

definition bucket_ok :: "bucket \<Rightarrow> bool" where
  "bucket_ok b = sorted_wrt (<) (map fst b)"

definition Seek :: "string list \<Rightarrow> string \<Rightarrow> string list" where
  \<comment> \<open>the keys a cursor visits from \<^verbatim>\<open>c.Seek(k)\<close> on by \<^verbatim>\<open>c.Next()\<close>\<close>
  "Seek ks k = dropWhile (\<lambda>x. x < k) ks"

section \<open>\<^verbatim>\<open>listPageInner\<close>, \<^verbatim>\<open>ListPage\<close> and \<^verbatim>\<open>List\<close>\<close>

definition seekPrefix :: "string \<Rightarrow> string \<Rightarrow> string" where
  "seekPrefix pfx after =
     (if after = [] then pfx
      else if \<not> prefix pfx (Join [pfx, after]) then pfx
      else Join [pfx, after])"

fun listLoop :: "string \<Rightarrow> string \<Rightarrow> int \<Rightarrow> string list \<Rightarrow> string list \<Rightarrow> string list" where
  "listLoop pfx after limit [] keys = keys"
| "listLoop pfx after limit (k # ks) keys =
     (if \<not> prefix pfx k then keys
      else if limit > 0 \<and> int (length keys) \<ge> limit then keys
      else let key = TrimPrefix k pfx; i = strings_Index key CHR ''/'' in
        if i = - 1 then
          (if after \<noteq> [] \<and> key \<le> after then listLoop pfx after limit ks keys
           else listLoop pfx after limit ks (keys @ [key]))
        else
          (if length keys = 0 \<or> last keys \<noteq> take (nat (i + 1)) key then
             (if after \<noteq> [] \<and> take (nat (i + 1)) key \<le> after
              then listLoop pfx after limit ks keys
              else listLoop pfx after limit ks (keys @ [take (nat (i + 1)) key]))
           else listLoop pfx after limit ks keys))"

definition listPageInner :: "bucket \<Rightarrow> string \<Rightarrow> string \<Rightarrow> int \<Rightarrow> string list" where
  "listPageInner b pfx after limit =
     listLoop pfx after limit (Seek (map fst b) (seekPrefix pfx after)) []"

definition ListPage :: "bucket \<Rightarrow> string \<Rightarrow> string \<Rightarrow> int \<Rightarrow> string list" where
  "ListPage b pfx after limit = listPageInner b pfx after limit"

definition List_keys :: "bucket \<Rightarrow> string \<Rightarrow> string list" where
  \<comment> \<open>\<^verbatim>\<open>FSM.List\<close>\<close>
  "List_keys b pfx = ListPage b pfx [] (- 1)"

subsection \<open>What a list call is specified to return\<close>

text \<open>
  The specification describes a page in words: the names with the prefix, a key with a
  further \<^verbatim>\<open>/\<close> collapsed to its first segment with a trailing \<^verbatim>\<open>/\<close>, the names
  strictly greater than \<open>after\<close>, consecutive duplicates suppressed, truncated to the
  limit. \<open>result_name\<close> is the collapsed name of one key, \<open>spec_ListPage\<close> the page
  as the specification words it. \<open>names_from\<close> is the same list with the lower bound
  applied only when \<open>after\<close> is non-empty, which is what the loop of
  \<^verbatim>\<open>listPageInner\<close> tests.
\<close>

definition result_name :: "string \<Rightarrow> string \<Rightarrow> string" where
  "result_name pfx k =
     (let key = drop (length pfx) k
      in if CHR ''/'' \<in> set key then takeWhile (\<lambda>x. x \<noteq> CHR ''/'') key @ ''/'' else key)"

definition spec_ListPage :: "string list \<Rightarrow> string \<Rightarrow> string \<Rightarrow> int \<Rightarrow> string list" where
  "spec_ListPage ks pfx after limit =
     take (nat limit) (remdups_adj (filter (\<lambda>n. after < n) (map (result_name pfx) (filter (prefix pfx) ks))))"

definition names_from :: "string list \<Rightarrow> string \<Rightarrow> string \<Rightarrow> string list" where
  "names_from ks pfx after =
     remdups_adj (filter (\<lambda>n. after = [] \<or> after < n) (map (result_name pfx) (filter (prefix pfx) ks)))"

text \<open>
  The client loop of the pagination-closure property: start with an empty \<open>after\<close>, ask
  for the next page after the last key of the previous one, stop at the first empty page.
  The loop need not stop, so it is a partial function: \<open>None\<close> is a run that never
  reaches an empty page, \<open>Some pages\<close> the pages of a run that does.
\<close>

partial_function (option) pages_from :: "bucket \<Rightarrow> string \<Rightarrow> int \<Rightarrow> string \<Rightarrow> string list list option" where
  "pages_from b L K after =
     (if ListPage b L after K = [] then Some []
      else Option.bind (pages_from b L K (last (ListPage b L after K)))
             (\<lambda>rest. Some (ListPage b L after K # rest)))"

text \<open>Auxiliary notions used in the proofs about the listing loop.\<close>

definition lim :: "int \<Rightarrow> 'a list \<Rightarrow> 'a list" where
  "lim limit xs = (if limit > 0 then take (nat limit) xs else xs)"

fun dedup_after :: "'a option \<Rightarrow> 'a list \<Rightarrow> 'a list" where
  "dedup_after prev [] = []"
| "dedup_after prev (x # xs) = (if prev = Some x then dedup_after prev xs else x # dedup_after (Some x) xs)"

definition last_opt :: "'a list \<Rightarrow> 'a option" where
  "last_opt xs = (if xs = [] then None else Some (last xs))"

definition is_folder :: "string \<Rightarrow> string \<Rightarrow> bool" where
  "is_folder pfx k = (CHR ''/'' \<in> set (drop (length pfx) k))"

definition loop_inv :: "string \<Rightarrow> string list \<Rightarrow> string list \<Rightarrow> bool" where
  "loop_inv pfx acc ks =
     (distinct ks \<and> (acc \<noteq> [] \<longrightarrow> (\<forall>k\<in>set ks. prefix pfx k \<longrightarrow> \<not> is_folder pfx k \<longrightarrow> result_name pfx k \<noteq> last acc)))"

text \<open>
  Prefixes and names for which the seek key is well behaved: a \<open>simple_prefix\<close> is empty
  or a sequence of plain path segments (non-empty, without \<^verbatim>\<open>/\<close>, neither \<^verbatim>\<open>.\<close> nor
  \<^verbatim>\<open>..\<close>), each followed by \<^verbatim>\<open>/\<close>; a name is \<open>name_like\<close> when it is non-empty and
  has no \<^verbatim>\<open>/\<close> except as its last character, as every non-empty listed name is.
  \<open>add_component\<close> is what the cleaning loop does to its buffer for one plain segment.
\<close>

definition simple_component :: "string \<Rightarrow> bool" where
  "simple_component c = (c \<noteq> [] \<and> CHR ''/'' \<notin> set c \<and> c \<noteq> ''.'' \<and> c \<noteq> ''..'')"

definition simple_prefix :: "string \<Rightarrow> bool" where
  "simple_prefix pfx =
     (pfx = [] \<or> (\<exists>cs. cs \<noteq> [] \<and> (\<forall>c\<in>set cs. simple_component c) \<and> pfx = concat (map (\<lambda>c. c @ ''/'') cs)))"

definition add_component :: "string \<Rightarrow> string \<Rightarrow> string" where
  "add_component out c = (if out = [] then c else out @ ''/'' @ c)"

definition name_like :: "string \<Rightarrow> bool" where
  "name_like n = (n \<noteq> [] \<and> CHR ''/'' \<notin> set (butlast n))"

section \<open>The replicated state machine: applying Raft logs\<close>

subsection \<open>Errors, operations and the store\<close>

text \<open>
  An error either wraps \<^verbatim>\<open>physical.ErrTransactionCommitFailure\<close> (the only thing
  \<^verbatim>\<open>errors.Is\<close> is asked in \<^verbatim>\<open>ApplyBatch\<close>), is a \<^verbatim>\<open>multierror\<close> collection, or is
  any other error; each carries its message. A panic ends the process and is an outcome
  of its own.
\<close>

datatype err = TxCommitFailure string | OtherError string | MultiError "err list"

fun is_TxCommitFailure :: "err \<Rightarrow> bool" where
  \<comment> \<open>\<^verbatim>\<open>errors.Is(err, physical.ErrTransactionCommitFailure)\<close>\<close>
  "is_TxCommitFailure (TxCommitFailure m) = True"
| "is_TxCommitFailure (OtherError m) = False"
| "is_TxCommitFailure (MultiError es) = False"

fun Error :: "err \<Rightarrow> string" where
  \<comment> \<open>\<^verbatim>\<open>err.Error()\<close>\<close>
  "Error (TxCommitFailure m) = m"
| "Error (OtherError m) = m"
| "Error (MultiError es) = concat (map Error es)"

datatype 'a outcome = Panic string | Return 'a

definition deleteOp :: nat where "deleteOp = 1"
definition putOp :: nat where "putOp = 2"
definition restoreCallbackOp :: nat where "restoreCallbackOp = 4"
definition getOp :: nat where "getOp = 8"
definition verifyReadOp :: nat where "verifyReadOp = 16"
definition verifyListOp :: nat where "verifyListOp = 32"
definition beginTxOp :: nat where "beginTxOp = 64"
definition commitTxOp :: nat where "commitTxOp = 128"

definition latestIndexKey :: string where "latestIndexKey = ''latest_indexes''"
definition latestConfigKey :: string where "latestConfigKey = ''latest_config''"
definition localNodeConfigKey :: string where "localNodeConfigKey = ''local_node_config''"

definition fsmEntryTxErrorKey :: string where
  "fsmEntryTxErrorKey = [CHR ''['', CHR 0x09] @ ''transaction-commit-failure'' @ [CHR 0x09, CHR '']'']"

record FSMEntry =
  Key :: string
  Value :: bytes

definition IsTxError :: "FSMEntry \<Rightarrow> bool" where
  "IsTxError e = (FSMEntry.Key e = fsmEntryTxErrorKey)"

record FSMApplyResponse =
  Success :: bool
  EntrySlice :: "FSMEntry list"

record LogOperation =
  OpType :: nat
  Key :: string
  Value :: bytes

record Server =
  Suffrage :: int
  Id :: string
  Address :: string

record ConfigurationValue =
  Index :: nat
  Servers :: "Server list"

datatype LogType = LogCommand | LogNoop | LogAddPeerDeprecated | LogRemovePeerDeprecated
  | LogBarrier | LogConfiguration

record Log =
  Index :: nat
  Term :: nat
  Type :: LogType
  Data :: bytes

text \<open>
  Modelled from the spec: \<^verbatim>\<open>fsmTxnCommitIndexApplicationState\<close>, the per-entry state of
  the fast-application tracker, is not among the sources. The model keeps what its setters
  are given: whether the entry is a transaction, its start index, the keys logged as
  written, and the indexes \<^verbatim>\<open>applyState\<close> was created with.
\<close>

record txn_state =
  inTx :: bool
  startIndex :: nat
  written :: "string list"
  finished :: bool
  latestIdx :: nat
  commandIdx :: nat
  logIdx :: nat

definition applyState :: "nat \<Rightarrow> nat \<Rightarrow> nat \<Rightarrow> txn_state" where
  "applyState latest commandIndex logIndex =
     \<lparr>inTx = False, startIndex = 0, written = [], finished = False,
      latestIdx = latest, commandIdx = commandIndex, logIdx = logIndex\<rparr>"

definition setInTx :: "txn_state \<Rightarrow> txn_state" where
  "setInTx ts = ts\<lparr>inTx := True\<rparr>"

definition getInTx :: "txn_state \<Rightarrow> bool" where
  "getInTx ts = inTx ts"

definition setStartIndex :: "txn_state \<Rightarrow> nat \<Rightarrow> txn_state" where
  "setStartIndex ts i = ts\<lparr>startIndex := i\<rparr>"

definition logWrite :: "txn_state \<Rightarrow> string \<Rightarrow> txn_state" where
  "logWrite ts k = ts\<lparr>written := written ts @ [k]\<rparr>"

definition finishTxn :: "txn_state \<Rightarrow> txn_state" where
  "finishTxn ts = ts\<lparr>finished := True\<rparr>"

text \<open>
  What the sources call but do not contain is a parameter of the model: the text of the
  commit-failure error, the protobuf and Raft codecs, the parser of the \<^verbatim>\<open>begin_tx\<close>
  value, the two verification helpers of the tracker, and the conditions under which the
  embedded store refuses a \<^verbatim>\<open>Put\<close> or a \<^verbatim>\<open>Delete\<close>. Every theorem holds for all values
  of these parameters unless it says otherwise. \<^verbatim>\<open>raft.DecodeConfiguration\<close> panics on data
  that does not decode: \<open>Inl\<close> is the message of that panic.
\<close>

record env =
  commitFailureText :: string
  unmarshalLogData :: "bytes \<Rightarrow> err + LogOperation list"
  DecodeConfiguration :: "bytes \<Rightarrow> string + Server list"
  marshalConfiguration :: "ConfigurationValue \<Rightarrow> err + bytes"
  marshalIndexValue :: "nat \<Rightarrow> nat \<Rightarrow> err + bytes"
  parseBeginTxOpValue :: "bytes \<Rightarrow> err + nat"
  doVerifyRead :: "txn_state \<Rightarrow> bucket \<Rightarrow> LogOperation \<Rightarrow> err option"
  doVerifyList :: "txn_state \<Rightarrow> bucket \<Rightarrow> LogOperation \<Rightarrow> err option"
  putError :: "string \<Rightarrow> bytes \<Rightarrow> err option"
  deleteError :: "string \<Rightarrow> err option"

fun bput :: "string \<Rightarrow> bytes \<Rightarrow> bucket \<Rightarrow> bucket" where
  "bput k v [] = [(k, v)]"
| "bput k v ((k', v') # b) =
     (if k < k' then (k, v) # (k', v') # b
      else if k = k' then (k, v) # b
      else (k', v') # bput k v b)"

definition bucketPut :: "env \<Rightarrow> bucket \<Rightarrow> string \<Rightarrow> bytes \<Rightarrow> err + bucket" where
  \<comment> \<open>\<^verbatim>\<open>b.Put(key, value)\<close>\<close>
  "bucketPut env b k v = (case putError env k v of Some e \<Rightarrow> Inl e | None \<Rightarrow> Inr (bput k v b))"

definition bucketDelete :: "env \<Rightarrow> bucket \<Rightarrow> string \<Rightarrow> err + bucket" where
  \<comment> \<open>\<^verbatim>\<open>b.Delete(key)\<close>\<close>
  "bucketDelete env b k =
     (case deleteError env k of Some e \<Rightarrow> Inl e | None \<Rightarrow> Inr (filter (\<lambda>kv. fst kv \<noteq> k) b))"

definition bucketGet :: "bucket \<Rightarrow> string \<Rightarrow> bytes option" where
  \<comment> \<open>\<^verbatim>\<open>b.Get(key)\<close>, \<open>None\<close> for \<^verbatim>\<open>nil\<close>\<close>
  "bucketGet b k = map_of b k"

record boltDB =
  dataBucket :: bucket
  configBucket :: bucket

text \<open>
  The state machine: its in-memory fields and the database. \<open>dbFile\<close> is the content of
  the file at the database path, \<open>dbOpen\<close> says whether \<^verbatim>\<open>f.db\<close> is an open handle on
  it (a transaction on a closed handle fails).
\<close>

record FSM =
  latestIndex :: nat
  latestTerm :: nat
  latestConfig :: "ConfigurationValue option"
  noopRestore :: bool
  desiredSuffrage :: string
  dbFile :: boltDB
  dbOpen :: bool

subsection \<open>\<^verbatim>\<open>applyBatchNonTxOps\<close>\<close>

text \<open>
  The result is the error (if any), the bucket with the writes made so far, and the
  tracker state. The restore callback runs in a goroutine of its own and an unknown
  operation type is only logged: neither changes the store.
\<close>

fun applyBatchNonTxOps :: "env \<Rightarrow> bucket \<Rightarrow> txn_state \<Rightarrow> LogOperation list \<Rightarrow> err option \<times> bucket \<times> txn_state" where
  "applyBatchNonTxOps env b ts [] = (None, b, ts)"
| "applyBatchNonTxOps env b ts (op # ops) =
     (if OpType op = putOp then
        (case bucketPut env b (LogOperation.Key op) (LogOperation.Value op) of
           Inl e \<Rightarrow> (Some e, b, ts)
         | Inr b' \<Rightarrow> applyBatchNonTxOps env b' (logWrite ts (LogOperation.Key op)) ops)
      else if OpType op = deleteOp then
        (case bucketDelete env b (LogOperation.Key op) of
           Inl e \<Rightarrow> (Some e, b, ts)
         | Inr b' \<Rightarrow> applyBatchNonTxOps env b' (logWrite ts (LogOperation.Key op)) ops)
      else if OpType op = restoreCallbackOp then applyBatchNonTxOps env b ts ops
      else applyBatchNonTxOps env b ts ops)"

subsection \<open>\<^verbatim>\<open>applyBatchTxOps\<close>\<close>

definition txShapeError :: "env \<Rightarrow> err" where
  "txShapeError env =
     TxCommitFailure (''unsupported transaction: saw beginTxOp/commitTxOp mixed inside other operations: ''
                      @ commitFailureText env)"

text \<open>
  The first loop: \<open>all\<close> is \<^verbatim>\<open>command.Operations\<close>, \<open>idx\<close> the index of the operation at
  the head of the last argument. It returns the first error and the tracker state.
\<close>

fun verifyLoop :: "env \<Rightarrow> LogOperation list \<Rightarrow> bucket \<Rightarrow> txn_state \<Rightarrow> nat \<Rightarrow> LogOperation list \<Rightarrow> err option \<times> txn_state" where
  "verifyLoop env all b ts idx [] = (None, ts)"
| "verifyLoop env all b ts idx (op # ops) =
     (if OpType op = beginTxOp \<or> OpType op = commitTxOp then
        (if OpType (all ! 0) \<noteq> beginTxOp \<or> OpType (all ! (length all - 1)) \<noteq> commitTxOp
            \<or> (idx \<noteq> 0 \<and> idx \<noteq> length all - 1)
         then (Some (txShapeError env), ts)
         else if OpType op = beginTxOp then
           (case parseBeginTxOpValue env (LogOperation.Value op) of
              Inl e \<Rightarrow> (Some e, ts)
            | Inr s \<Rightarrow> verifyLoop env all b (setStartIndex ts s) (Suc idx) ops)
         else verifyLoop env all b ts (Suc idx) ops)
      else if OpType op = putOp then verifyLoop env all b ts (Suc idx) ops
      else if OpType op = deleteOp then verifyLoop env all b ts (Suc idx) ops
      else if OpType op = verifyReadOp then
        (case doVerifyRead env ts b op of
           Some e \<Rightarrow> (Some e, ts)
         | None \<Rightarrow> verifyLoop env all b ts (Suc idx) ops)
      else if OpType op = verifyListOp then
        (case doVerifyList env ts b op of
           Some e \<Rightarrow> (Some e, ts)
         | None \<Rightarrow> verifyLoop env all b ts (Suc idx) ops)
      else verifyLoop env all b ts (Suc idx) ops)"

text \<open>The second loop: the writes; the key is logged whether or not the write succeeded.\<close>

fun writeLoop :: "env \<Rightarrow> bucket \<Rightarrow> txn_state \<Rightarrow> LogOperation list \<Rightarrow> err option \<times> bucket \<times> txn_state" where
  "writeLoop env b ts [] = (None, b, ts)"
| "writeLoop env b ts (op # ops) =
     (if OpType op = beginTxOp \<or> OpType op = commitTxOp then writeLoop env b ts ops
      else if OpType op = putOp then
        (case bucketPut env b (LogOperation.Key op) (LogOperation.Value op) of
           Inl e \<Rightarrow> (Some e, b, logWrite ts (LogOperation.Key op))
         | Inr b' \<Rightarrow> writeLoop env b' (logWrite ts (LogOperation.Key op)) ops)
      else if OpType op = deleteOp then
        (case bucketDelete env b (LogOperation.Key op) of
           Inl e \<Rightarrow> (Some e, b, logWrite ts (LogOperation.Key op))
         | Inr b' \<Rightarrow> writeLoop env b' (logWrite ts (LogOperation.Key op)) ops)
      else writeLoop env b ts ops)"

definition applyBatchTxOps :: "env \<Rightarrow> bucket \<Rightarrow> txn_state \<Rightarrow> LogOperation list \<Rightarrow> err option \<times> bucket \<times> txn_state" where
  "applyBatchTxOps env b ts ops =
     (case verifyLoop env ops b (setInTx ts) 0 ops of
        (Some e, ts1) \<Rightarrow> (Some e, b, ts1)
      | (None, ts1) \<Rightarrow>
          (case writeLoop env b ts1 ops of
             (Some e, b', ts2) \<Rightarrow> (Some e, b', ts2)
           | (None, b', ts2) \<Rightarrow> (None, b', finishTxn ts2)))"

subsection \<open>\<^verbatim>\<open>ApplyBatch\<close>\<close>

datatype command = CmdLogData "LogOperation list" | CmdConfiguration ConfigurationValue

text \<open>
  The unmarshalling loop: \<open>Inl\<close> is the message of the panic, \<open>Inr\<close> the commands and
  the latest configuration seen. \<open>LogType_number\<close> is the value of a log type, which the
  panic for an unexpected type prints with \<^verbatim>\<open>%d\<close>.
\<close>

fun LogType_number :: "LogType \<Rightarrow> string" where
  "LogType_number LogCommand = ''0''"
| "LogType_number LogNoop = ''1''"
| "LogType_number LogAddPeerDeprecated = ''2''"
| "LogType_number LogRemovePeerDeprecated = ''3''"
| "LogType_number LogBarrier = ''4''"
| "LogType_number LogConfiguration = ''5''"

fun decodeLogs :: "env \<Rightarrow> Log list \<Rightarrow> string + (command list \<times> ConfigurationValue option)" where
  "decodeLogs env [] = Inr ([], None)"
| "decodeLogs env (l # ls) =
     (case Type l of
        LogCommand \<Rightarrow>
          (case unmarshalLogData env (Data l) of
             Inl e \<Rightarrow> Inl ''error proto unmarshaling log data''
           | Inr ops \<Rightarrow>
               (case decodeLogs env ls of
                  Inl m \<Rightarrow> Inl m
                | Inr (cs, latest) \<Rightarrow> Inr (CmdLogData ops # cs, latest)))
      | LogConfiguration \<Rightarrow>
          (case DecodeConfiguration env (Data l) of
             Inl m \<Rightarrow> Inl m
           | Inr servers \<Rightarrow>
               (case decodeLogs env ls of
                  Inl m \<Rightarrow> Inl m
                | Inr (cs, latest) \<Rightarrow>
                    Inr (CmdConfiguration \<lparr>ConfigurationValue.Index = Log.Index l, Servers = servers\<rparr> # cs,
                         (case latest of
                            None \<Rightarrow> Some \<lparr>ConfigurationValue.Index = Log.Index l, Servers = servers\<rparr>
                          | Some c \<Rightarrow> Some c))))
      | _ \<Rightarrow> Inl (''got unexpected log type: '' @ LogType_number (Type l)))"

definition txErrorEntry :: "err \<Rightarrow> FSMEntry" where
  "txErrorEntry e = \<lparr>FSMEntry.Key = fsmEntryTxErrorKey, FSMEntry.Value = Error e\<rparr>"

text \<open>
  The loop inside the first \<^verbatim>\<open>f.db.Update\<close>: the state is the data and the config
  bucket of the open write transaction, \<open>ci\<close> is \<^verbatim>\<open>commandIndex\<close>; the result is the
  error that ends the update (if any), the buckets, and one entry slice per command
  processed.
\<close>

fun applyCommands :: "env \<Rightarrow> Log list \<Rightarrow> nat \<Rightarrow> nat \<Rightarrow> bucket \<times> bucket \<Rightarrow> command list \<Rightarrow> err option \<times> (bucket \<times> bucket) \<times> FSMEntry list list" where
  "applyCommands env logs latest ci (b, cb) [] = (None, (b, cb), [])"
| "applyCommands env logs latest ci (b, cb) (CmdLogData ops # cs) =
     (case (if length ops = 0 \<or> OpType (ops ! 0) \<noteq> beginTxOp
            then applyBatchNonTxOps env b (applyState latest ci (Log.Index (logs ! ci))) ops
            else applyBatchTxOps env b (applyState latest ci (Log.Index (logs ! ci))) ops) of
        (None, b', ts) \<Rightarrow>
          (case applyCommands env logs latest (Suc ci) (b', cb) cs of
             (r, s, es) \<Rightarrow> (r, s, [] # es))
      | (Some e, b', ts) \<Rightarrow>
          (if getInTx ts \<and> is_TxCommitFailure e
           then (case applyCommands env logs latest (Suc ci) (b', cb) cs of
                   (r, s, es) \<Rightarrow> (r, s, [txErrorEntry e] # es))
           else (Some e, (b', cb), [[]])))"
| "applyCommands env logs latest ci (b, cb) (CmdConfiguration c # cs) =
     (case marshalConfiguration env c of
        Inl e \<Rightarrow> (Some e, (b, cb), [])
      | Inr configBytes \<Rightarrow>
          (case bucketPut env cb latestConfigKey configBytes of
             Inl e \<Rightarrow> (Some e, (b, cb), [])
           | Inr cb' \<Rightarrow>
               (case applyCommands env logs latest (Suc ci) (b, cb') cs of
                  (r, s, es) \<Rightarrow> (r, s, [] # es))))"

definition ApplyBatch :: "env \<Rightarrow> FSM \<Rightarrow> Log list \<Rightarrow> (FSM \<times> FSMApplyResponse list) outcome" where
  "ApplyBatch env f logs =
     (if length logs = 0 then Return (f, [])
      else case decodeLogs env logs of
        Inl msg \<Rightarrow> Panic msg
      | Inr (commands, latestConfiguration) \<Rightarrow>
          (case (if latestIndex f < Log.Index (last logs)
                 then marshalIndexValue env (Term (last logs)) (Log.Index (last logs))
                 else Inr []) of
             Inl e \<Rightarrow> Panic ''unable to marshal latest index''
           | Inr logIndex \<Rightarrow>
               if \<not> dbOpen f then Panic ''failed to store data''
               else (case applyCommands env logs (latestIndex f) 0
                             (dataBucket (dbFile f), configBucket (dbFile f)) commands of
                  (Some e, s, es) \<Rightarrow> Panic ''failed to store data''
                | (None, (b', cb'), entrySlices) \<Rightarrow>
                    (case (if length logIndex > 0 then bucketPut env cb' latestIndexKey logIndex
                           else Inr cb') of
                       Inl e \<Rightarrow> Panic ''failed to store data''
                     | Inr cb'' \<Rightarrow>
                         if length entrySlices < length logs then Panic ''index out of range''
                         else Return
                           (f\<lparr>dbFile := \<lparr>dataBucket = b', configBucket = cb''\<rparr>,
                              latestTerm := (if length logIndex > 0 then Term (last logs) else latestTerm f),
                              latestIndex := (if length logIndex > 0 then Log.Index (last logs) else latestIndex f),
                              latestConfig := (case latestConfiguration of
                                                 None \<Rightarrow> latestConfig f
                                               | Some c \<Rightarrow> Some c)\<rparr>,
                            map (\<lambda>i. \<lparr>Success = True, EntrySlice = entrySlices ! i\<rparr>) [0..<length logs])))))"

subsection \<open>Notions used to state the properties of the apply path\<close>

text \<open>
  \<open>verifyOp\<close> is the verification an operation asks for. \<open>verify_failures\<close> says of
  the verifications of one entry, in a tracker state and against a bucket, what the
  specification says of a failed verify: it is a transaction commit failure.
  \<open>shape_violated\<close> is the ill-formed transaction of the data model: the last operation
  is not \<^verbatim>\<open>commit_tx\<close>, or a \<^verbatim>\<open>begin_tx\<close> or \<^verbatim>\<open>commit_tx\<close> stands strictly between
  the first and the last operation. \<open>applyEntry\<close> is the choice \<^verbatim>\<open>ApplyBatch\<close> makes for
  one \<^verbatim>\<open>LogData\<close> between the two application functions, \<open>slice_ok\<close> describes the
  entry slices it produces.
\<close>

definition verifyOp :: "env \<Rightarrow> txn_state \<Rightarrow> bucket \<Rightarrow> LogOperation \<Rightarrow> err option" where
  "verifyOp env ts b op =
     (if OpType op = verifyReadOp then doVerifyRead env ts b op
      else if OpType op = verifyListOp then doVerifyList env ts b op
      else None)"

definition verify_failures :: "env \<Rightarrow> txn_state \<Rightarrow> bucket \<Rightarrow> LogOperation list \<Rightarrow> bool" where
  "verify_failures env ts b ops =
     (\<forall>op\<in>set ops. case verifyOp env ts b op of None \<Rightarrow> True | Some e \<Rightarrow> is_TxCommitFailure e)"

definition applyEntry :: "env \<Rightarrow> bucket \<Rightarrow> txn_state \<Rightarrow> LogOperation list \<Rightarrow> err option \<times> bucket \<times> txn_state" where
  "applyEntry env b ts ops =
     (if length ops = 0 \<or> OpType (ops ! 0) \<noteq> beginTxOp
      then applyBatchNonTxOps env b ts ops
      else applyBatchTxOps env b ts ops)"

definition shape_violated :: "LogOperation list \<Rightarrow> bool" where
  "shape_violated ops =
     (OpType (last ops) \<noteq> commitTxOp
      \<or> (\<exists>i. 0 < i \<and> i < length ops - 1 \<and> (OpType (ops ! i) = beginTxOp \<or> OpType (ops ! i) = commitTxOp)))"

definition slice_ok :: "FSMEntry list \<Rightarrow> bool" where
  "slice_ok es = (es = [] \<or> (\<exists>e. is_TxCommitFailure e \<and> es = [txErrorEntry e]))"

subsection \<open>A concrete environment and batches\<close>

text \<open>
  An instance of the parameters on which the definitions can be run: log data is one of a
  few named operation lists, a read verifies when the bucket holds the expected value, and
  the store refuses an empty key (as the embedded store does), every \<^verbatim>\<open>begin_tx\<close> value
  parses. The store starts with
  \<^verbatim>\<open>a = 1\<close>; \<open>txA\<close> and \<open>txB\<close> are the two transactions of the specification's
  conflict scenario.
\<close>

definition mkOp :: "nat \<Rightarrow> string \<Rightarrow> bytes \<Rightarrow> LogOperation" where
  "mkOp t k v = \<lparr>OpType = t, LogOperation.Key = k, LogOperation.Value = v\<rparr>"

definition txA :: "LogOperation list" where
  "txA = [mkOp beginTxOp [] [], mkOp verifyReadOp ''a'' ''1'', mkOp putOp ''a'' ''2'', mkOp commitTxOp [] []]"

definition txB :: "LogOperation list" where
  "txB = [mkOp beginTxOp [] [], mkOp verifyReadOp ''a'' ''1'', mkOp putOp ''a'' ''3'', mkOp commitTxOp [] []]"

definition putC :: "LogOperation list" where
  "putC = [mkOp putOp ''c'' ''x'']"

definition putEmptyKey :: "LogOperation list" where
  "putEmptyKey = [mkOp putOp [] ''x'']"

definition getA :: "LogOperation list" where
  "getA = [mkOp getOp ''a'' []]"

definition txNested :: "LogOperation list" where
  "txNested = [mkOp beginTxOp [] [], mkOp putOp ''a'' ''9'', mkOp beginTxOp [] [], mkOp commitTxOp [] []]"

definition txBadBegin :: "LogOperation list" where
  "txBadBegin = [mkOp beginTxOp [] ''bad'', mkOp putOp ''a'' ''9'', mkOp beginTxOp [] [], mkOp commitTxOp [] []]"

definition env0 :: env where
  "env0 = \<lparr>commitFailureText = ''transaction commit failure'',
     unmarshalLogData = (\<lambda>d. if d = ''A'' then Inr txA else if d = ''B'' then Inr txB
        else if d = ''C'' then Inr putC else if d = ''D'' then Inr putEmptyKey
        else if d = ''E'' then Inr getA else Inl (OtherError ''cannot parse'')),
     DecodeConfiguration = (\<lambda>d. Inr []),
     marshalConfiguration = (\<lambda>c. Inr ''config''),
     marshalIndexValue = (\<lambda>t i. Inr ''index''),
     parseBeginTxOpValue = (\<lambda>v. Inr 0),
     doVerifyRead = (\<lambda>ts b op. if bucketGet b (LogOperation.Key op) = Some (LogOperation.Value op) then None
        else Some (TxCommitFailure ''verification of read failed: transaction commit failure'')),
     doVerifyList = (\<lambda>ts b op. None),
     putError = (\<lambda>k v. if k = [] then Some (OtherError ''key required'') else None),
     deleteError = (\<lambda>k. None)\<rparr>"

text \<open>
  The same environment with a parser that refuses the \<^verbatim>\<open>begin_tx\<close> value \<^verbatim>\<open>bad\<close> with an
  error of its own, and the log data \<^verbatim>\<open>N\<close> for \<open>txBadBegin\<close>.
\<close>

definition env1 :: env where
  "env1 = env0\<lparr>unmarshalLogData := (\<lambda>d. if d = ''N'' then Inr txBadBegin else unmarshalLogData env0 d),
     parseBeginTxOpValue := (\<lambda>v. if v = ''bad'' then Inl (OtherError ''invalid begin_tx value'') else Inr 0)\<rparr>"

definition fsm0 :: FSM where
  "fsm0 = \<lparr>latestIndex = 0, latestTerm = 0, latestConfig = None, noopRestore = False,
     desiredSuffrage = ''voter'',
     dbFile = \<lparr>dataBucket = [(''a'', ''1'')], configBucket = []\<rparr>, dbOpen = True\<rparr>"

definition mkLog :: "nat \<Rightarrow> LogType \<Rightarrow> bytes \<Rightarrow> Log" where
  "mkLog i t d = \<lparr>Log.Index = i, Term = 1, Type = t, Data = d\<rparr>"

definition logs0 :: "Log list" where
  "logs0 = [mkLog 1 LogCommand ''A'', mkLog 2 LogCommand ''B'', mkLog 3 LogCommand ''C'']"

section \<open>Snapshot install: \<^verbatim>\<open>Restore\<close>\<close>

record LocalNodeConfigValue =
  DesiredSuffrage :: string

text \<open>
  Modelled from the spec: \<^verbatim>\<open>boltSnapshotInstaller\<close> is not among the sources; its
  \<^verbatim>\<open>Install\<close> renames the installer's file to the database path. An installer is the
  content of its file and the error of the rename, if it fails.
\<close>

record boltSnapshotInstaller =
  snapshotDB :: boltDB
  installError :: "err option"

datatype ReadCloser =
    BoltSnapshotInstaller boltSnapshotInstaller
  | ReadCloserWrapper ReadCloser
  | OtherReadCloser

text \<open>
  The codecs of the stored metadata, the failures of closing and opening the database
  file, and the name of a reader's dynamic type (what \<^verbatim>\<open>%T\<close> prints in an error
  message) are parameters.
\<close>

record restore_env =
  unmarshalLocalNodeConfig :: "bytes \<Rightarrow> err + LocalNodeConfigValue"
  marshalLocalNodeConfig :: "LocalNodeConfigValue \<Rightarrow> err + bytes"
  unmarshalIndexValue :: "bytes \<Rightarrow> err + (nat \<times> nat)"
  unmarshalConfigurationValue :: "bytes \<Rightarrow> err + ConfigurationValue"
  closeError :: "err option"
  openError :: "err option"
  typeName :: "ReadCloser \<Rightarrow> string"

definition dbNotOpen :: err where
  "dbNotOpen = OtherError ''database not open''"

definition localNodeConfig :: "restore_env \<Rightarrow> FSM \<Rightarrow> (err + LocalNodeConfigValue option) \<times> FSM" where
  "localNodeConfig renv f =
     (if \<not> dbOpen f then (Inl dbNotOpen, f)
      else case bucketGet (configBucket (dbFile f)) localNodeConfigKey of
        None \<Rightarrow> (Inr None, f)
      | Some configBytes \<Rightarrow>
          (case unmarshalLocalNodeConfig renv configBytes of
             Inl e \<Rightarrow> (Inl e, f)
           | Inr lnConfig \<Rightarrow> (Inr (Some lnConfig), f\<lparr>desiredSuffrage := DesiredSuffrage lnConfig\<rparr>)))"

definition persistDesiredSuffrage :: "env \<Rightarrow> restore_env \<Rightarrow> FSM \<Rightarrow> LocalNodeConfigValue \<Rightarrow> err option \<times> FSM" where
  "persistDesiredSuffrage env renv f lnconfig =
     (case marshalLocalNodeConfig renv lnconfig of
        Inl e \<Rightarrow> (Some e, f)
      | Inr dsBytes \<Rightarrow>
          if \<not> dbOpen f then (Some dbNotOpen, f)
          else (case bucketPut env (configBucket (dbFile f)) localNodeConfigKey dsBytes of
                  Inl e \<Rightarrow> (Some e, f)
                | Inr cb \<Rightarrow> (None, f\<lparr>dbFile := (dbFile f)\<lparr>configBucket := cb\<rparr>\<rparr>)))"

text \<open>
  \<^verbatim>\<open>openDBFile\<close> on the database path: the buckets exist in every \<open>boltDB\<close> of the
  model, so creating them is no change; the latest index, term and configuration are read
  into memory, and only then does \<^verbatim>\<open>f.db\<close> become the new open handle.
\<close>

definition openDBFile :: "restore_env \<Rightarrow> FSM \<Rightarrow> err option \<times> FSM" where
  "openDBFile renv f =
     (case openError renv of
        Some e \<Rightarrow> (Some e, f)
      | None \<Rightarrow>
          (case (case bucketGet (configBucket (dbFile f)) latestIndexKey of
                   None \<Rightarrow> Inr f
                 | Some val \<Rightarrow>
                     (case unmarshalIndexValue renv val of
                        Inl e \<Rightarrow> Inl e
                      | Inr (term, index) \<Rightarrow> Inr (f\<lparr>latestTerm := term, latestIndex := index\<rparr>))) of
             Inl e \<Rightarrow> (Some e, f)
           | Inr f1 \<Rightarrow>
               (case bucketGet (configBucket (dbFile f)) latestConfigKey of
                  None \<Rightarrow> (None, f1\<lparr>dbOpen := True\<rparr>)
                | Some val \<Rightarrow>
                    (case unmarshalConfigurationValue renv val of
                       Inl e \<Rightarrow> (Some e, f1)
                     | Inr latest \<Rightarrow> (None, f1\<lparr>latestConfig := Some latest, dbOpen := True\<rparr>)))))"

fun snapshotInstaller :: "restore_env \<Rightarrow> ReadCloser \<Rightarrow> err + boltSnapshotInstaller" where
  \<comment> \<open>the two type assertions at the head of \<^verbatim>\<open>Restore\<close>\<close>
  "snapshotInstaller renv (BoltSnapshotInstaller i) = Inr i"
| "snapshotInstaller renv (ReadCloserWrapper (BoltSnapshotInstaller i)) = Inr i"
| "snapshotInstaller renv (ReadCloserWrapper r) =
     Inl (OtherError (''expected snapshot installer object, got: '' @ typeName renv r))"
| "snapshotInstaller renv OtherReadCloser =
     Inl (OtherError (''expected ReadCloserWrapper object, got: '' @ typeName renv OtherReadCloser))"

definition ErrorOrNil :: "err list \<Rightarrow> err option" where
  "ErrorOrNil es = (if es = [] then None else Some (MultiError es))"

definition Restore :: "env \<Rightarrow> restore_env \<Rightarrow> FSM \<Rightarrow> ReadCloser \<Rightarrow> err option \<times> FSM" where
  "Restore env renv f r =
     (if noopRestore f then (None, f)
      else case snapshotInstaller renv r of
        Inl e \<Rightarrow> (Some e, f)
      | Inr installer \<Rightarrow>
          (case localNodeConfig renv f of
             (Inl e, f1) \<Rightarrow> (Some e, f1)
           | (Inr lnConfig, f1) \<Rightarrow>
               (case closeError renv of
                  Some e \<Rightarrow> (Some e, f1)
                | None \<Rightarrow>
                    let f2 = f1\<lparr>dbOpen := False\<rparr>;
                        (retErr1, f3) = (case installError installer of
                             Some e \<Rightarrow> ([OtherError (''failed to install snapshot database: '' @ Error e)], f2)
                           | None \<Rightarrow> ([], f2\<lparr>dbFile := snapshotDB installer\<rparr>));
                        (e4, f4) = openDBFile renv f3;
                        retErr2 = (case e4 of
                             Some e \<Rightarrow> retErr1 @ [OtherError (''failed to open new bolt file: '' @ Error e)]
                           | None \<Rightarrow> retErr1)
                    in (case lnConfig of
                          None \<Rightarrow> (ErrorOrNil retErr2, f4)
                        | Some c \<Rightarrow>
                            (case persistDesiredSuffrage env renv f4 c of
                               (Some e, f5) \<Rightarrow>
                                 (ErrorOrNil (retErr2 @ [OtherError (''failed to persist local node config from before the restore: '' @ Error e)]), f5)
                             | (None, f5) \<Rightarrow> (ErrorOrNil retErr2, f5))))))"

text \<open>A concrete restore: a non-voter installs a snapshot that holds other data.\<close>

definition renv0 :: restore_env where
  "renv0 = \<lparr>unmarshalLocalNodeConfig = (\<lambda>bs. Inr \<lparr>DesiredSuffrage = bs\<rparr>),
     marshalLocalNodeConfig = (\<lambda>c. Inr (DesiredSuffrage c)),
     unmarshalIndexValue = (\<lambda>bs. Inr (1, 7)),
     unmarshalConfigurationValue = (\<lambda>bs. Inr \<lparr>ConfigurationValue.Index = 7, Servers = []\<rparr>),
     closeError = None, openError = None,
     typeName = (\<lambda>r. ''*os.File'')\<rparr>"

definition fsm1 :: FSM where
  "fsm1 = \<lparr>latestIndex = 3, latestTerm = 1, latestConfig = None, noopRestore = False,
     desiredSuffrage = ''voter'',
     dbFile = \<lparr>dataBucket = [(''a'', ''1'')],
               configBucket = [(''latest_indexes'', ''old''), (''local_node_config'', ''non-voter'')]\<rparr>,
     dbOpen = True\<rparr>"

definition installer0 :: boltSnapshotInstaller where
  "installer0 = \<lparr>snapshotDB = \<lparr>dataBucket = [(''a'', ''5''), (''b'', ''6'')],
                                 configBucket = [(''latest_indexes'', ''new'')]\<rparr>,
                  installError = None\<rparr>"

section \<open>Request forwarding on a standby: \<^verbatim>\<open>forwardRequest\<close> and \<^verbatim>\<open>respondStandby\<close>\<close>

record URL =
  Scheme :: string
  Host :: string
  Path :: string
  RawQuery :: string

record Request =
  Header :: "string \<Rightarrow> string"
  reqURL :: URL

datatype core_error = ErrHANotEnabled | ErrCannotForward | ErrCore string

fun core_error_text :: "core_error \<Rightarrow> string" where
  "core_error_text ErrHANotEnabled = ''HA is not enabled''"
| "core_error_text ErrCannotForward = ''cannot forward request''"
| "core_error_text (ErrCore m) = m"

text \<open>
  What the handler asks of the core and of the standard library is a parameter:
  the result of \<^verbatim>\<open>core.Leader()\<close> (is-leader flag, advertised address, cluster address,
  error), the result of \<^verbatim>\<open>core.ForwardRequest\<close> (status, body, error), \<^verbatim>\<open>url.Parse\<close>,
  the name of the internal no-forwarding header, and the path set
  \<^verbatim>\<open>alwaysRedirectPaths\<close>.
\<close>

record Core =
  Leader :: "bool \<times> string \<times> string \<times> core_error option"
  ForwardRequest :: "Request \<Rightarrow> nat \<times> bytes \<times> core_error option"
  urlParse :: "string \<Rightarrow> core_error + URL"
  IntNoForwardingHeaderName :: string
  alwaysRedirectPaths :: "string \<Rightarrow> bool"

definition NoRequestForwardingHeaderName :: string where
  "NoRequestForwardingHeaderName = ''X-Vault-No-Request-Forwarding''"

text \<open>
  What is written to the response: an error with its status, the redirect with its
  \<^verbatim>\<open>Location\<close> (kept as the URL it is built from), the forwarded response, the local
  handler's response, or a panic.
\<close>

datatype http_response =
    RespondError nat string
  | Redirect nat URL
  | Forwarded nat bytes
  | ServedLocally
  | HandlerPanic

definition respondStandby :: "Core \<Rightarrow> URL \<Rightarrow> http_response" where
  "respondStandby core u =
     (case Leader core of
        (isLeader, redirectAddr, clusterAddr, Some e) \<Rightarrow>
          (if e = ErrHANotEnabled then RespondError 503 ''node is not active''
           else RespondError 500 (core_error_text e))
      | (isLeader, redirectAddr, clusterAddr, None) \<Rightarrow>
          if redirectAddr = [] then RespondError 503 ''no active Vault instance found''
          else (case urlParse core redirectAddr of
                  Inl e \<Rightarrow> RespondError 500 (core_error_text e)
                | Inr redirectURL \<Rightarrow>
                    Redirect 307
                      \<lparr>Scheme = (if Scheme redirectURL = [] then ''https'' else Scheme redirectURL),
                       Host = Host redirectURL,
                       Path = Path u,
                       RawQuery = RawQuery u\<rparr>))"

definition forwardRequest :: "Core \<Rightarrow> Request \<Rightarrow> http_response" where
  "forwardRequest core r =
     (if Header r (IntNoForwardingHeaderName core) \<noteq> [] then respondStandby core (reqURL r)
      else if Header r NoRequestForwardingHeaderName \<noteq> [] then respondStandby core (reqURL r)
      else if length (Path (reqURL r)) < length ''/v1/'' then HandlerPanic
      else if alwaysRedirectPaths core (drop (length ''/v1/'') (Path (reqURL r)))
        then respondStandby core (reqURL r)
      else (case ForwardRequest core r of
              (statusCode, retBytes, Some e) \<Rightarrow> respondStandby core (reqURL r)
            | (statusCode, retBytes, None) \<Rightarrow> Forwarded statusCode retBytes))"

text \<open>
  \<^verbatim>\<open>handleRequestForwarding\<close> asks for the leader first; \<open>first\<close> is the result of that
  call, the \<open>Leader\<close> of the core the result of the later call in \<^verbatim>\<open>respondStandby\<close>.
\<close>

definition handleRequestForwarding :: "Core \<Rightarrow> bool \<times> string \<times> string \<times> core_error option \<Rightarrow> Request \<Rightarrow> http_response" where
  "handleRequestForwarding core first r =
     (case first of
        (isLeader, leaderAddr, clusterAddr, Some e) \<Rightarrow>
          (if e = ErrHANotEnabled then ServedLocally else RespondError 500 (core_error_text e))
      | (isLeader, leaderAddr, clusterAddr, None) \<Rightarrow>
          if isLeader then ServedLocally
          else if leaderAddr = []
            then RespondError 500 ''local node not active but active cluster node not found''
          else forwardRequest core r)"

text \<open>A standby whose leader lookup fails, and one that knows its leader.\<close>

definition request0 :: Request where
  "request0 = \<lparr>Header = (\<lambda>h. if h = ''X-Vault-No-Request-Forwarding'' then ''true'' else []),
      reqURL = \<lparr>Scheme = [], Host = [], Path = ''/v1/secret/data/k'', RawQuery = ''version=2''\<rparr>\<rparr>"

definition core_lookup_fails :: Core where
  "core_lookup_fails =
     \<lparr>Leader = (False, [], [], Some (ErrCore ''failed to read the leader entry'')),
      ForwardRequest = (\<lambda>r. (200, [], None)),
      urlParse = (\<lambda>s. Inl (ErrCore ''not parsed'')),
      IntNoForwardingHeaderName = ''X-Vault-Internal-No-Request-Forwarding'',
      alwaysRedirectPaths = (\<lambda>p. False)\<rparr>"

definition core_standby :: Core where
  "core_standby =
     \<lparr>Leader = (False, ''//x.example:8200'', ''https://x.example:8201'', None),
      ForwardRequest = (\<lambda>r. (200, [], None)),
      urlParse = (\<lambda>s. if s = ''//x.example:8200''
                        then Inr \<lparr>Scheme = [], Host = ''x.example:8200'', Path = [], RawQuery = []\<rparr>
                        else Inl (ErrCore ''not parsed'')),
      IntNoForwardingHeaderName = ''X-Vault-Internal-No-Request-Forwarding'',
      alwaysRedirectPaths = (\<lambda>p. False)\<rparr>"

section \<open>Core initialization: \<^verbatim>\<open>Initialize\<close> and \<^verbatim>\<open>initializeInternal\<close>\<close>

record SealConfig =
  SecretShares :: int
  SecretThreshold :: int
  StoredShares :: int
  PGPKeys :: "string list"

record InitParams =
  BarrierConfig :: SealConfig
  RecoveryConfig :: "SealConfig option"
  RootTokenPGPKey :: string

record InitResult =
  SecretShares :: "bytes list"
  RecoveryShares :: "bytes list"
  RootToken :: string

datatype StoredKeysSupport =
  StoredKeysInvalid | StoredKeysNotSupported | StoredKeysSupportedGeneric | StoredKeysSupportedShamirRoot

text \<open>
  The core, as far as initialization is concerned, is the state of its barrier.

  Modelled from the spec: the barrier's \<^verbatim>\<open>Unseal\<close> and \<^verbatim>\<open>Seal\<close> are not among the
  sources. Unsealing with the key moves a sealed barrier to unsealed unless it fails;
  sealing moves it to sealed and is a no-op on a sealed barrier.
\<close>

record core_state =
  sealed :: bool

text \<open>
  Every other step initialization calls is a parameter: what the seal supports, and the
  outcome of each fallible call. None of them seals or unseals the barrier, except
  \<^verbatim>\<open>unsealInternal\<close>, whose outcome says whether the barrier is unsealed afterwards.
\<close>

record init_env =
  StoredKeysSupported :: StoredKeysSupport
  RecoveryKeySupported :: bool
  BarrierTypeShamir :: bool
  Validate :: "SealConfig \<Rightarrow> err option"
  ValidateRecovery :: "SealConfig \<Rightarrow> err option"
  Initialized :: "err + bool"
  InitializedLocally :: "err + bool"
  hasRaftBackend :: bool
  RaftBootstrap :: "err option"
  hasHA :: bool
  GenerateUUID :: "err option"
  LockWith :: "err option"
  Lock :: "err option"
  sealInit :: "err option"
  generateShares :: "SealConfig \<Rightarrow> err + (bytes \<times> bytes list)"
  barrierInitialize :: "err option"
  barrierUnsealError :: "err option"
  SetBarrierConfig :: "err option"
  GetShamirWrapper :: "err option"
  SetAesGcmKeyBytes :: "err option"
  SetStoredKeys :: "err option"
  setupCluster :: "err option"
  postUnseal :: "err option"
  SetRecoveryConfig :: "err option"
  SetRecoveryKey :: "err option"
  rootToken :: "err + string"
  EncryptRootToken :: "string \<Rightarrow> err + string"
  raftCreateTLSKeyring :: "err option"
  preSeal :: "err option"
  GetRecoveryConfig :: "err + SealConfig"
  sealMigrationPending :: bool
  GetStoredKeys :: "err + bytes list"
  unsealInternal :: "bytes \<Rightarrow> err option \<times> bool"

definition barrierUnseal :: "init_env \<Rightarrow> core_state \<Rightarrow> err option \<times> core_state" where
  "barrierUnseal env st =
     (case barrierUnsealError env of Some e \<Rightarrow> (Some e, st) | None \<Rightarrow> (None, st\<lparr>sealed := False\<rparr>))"

definition barrierSeal :: "core_state \<Rightarrow> core_state" where
  "barrierSeal st = st\<lparr>sealed := True\<rparr>"

definition wrapErr :: "string \<Rightarrow> err \<Rightarrow> err" where
  \<comment> \<open>\<^verbatim>\<open>fmt.Errorf("...: %w", err)\<close>\<close>
  "wrapErr msg e = OtherError (msg @ Error e)"

definition orFail :: "err option \<Rightarrow> (err + 'a) \<Rightarrow> err + 'a" where
  \<comment> \<open>\<^verbatim>\<open>if err != nil { return nil, err }\<close>, then the rest\<close>
  "orFail r k = (case r of Some e \<Rightarrow> Inl e | None \<Rightarrow> k)"

definition ErrAlreadyInit :: err where "ErrAlreadyInit = OtherError ''Vault is already initialized''"
definition ErrParallelInit :: err where "ErrParallelInit = OtherError ''Vault is being initialized on another node''"

text \<open>The checks of the configurations, up to taking the state lock.\<close>

definition init_config :: "init_env \<Rightarrow> InitParams \<Rightarrow> err + SealConfig" where
  "init_config env p =
     (if StoredKeysSupported env = StoredKeysSupportedGeneric \<and> length (PGPKeys (BarrierConfig p)) > 0
      then Inl (OtherError ''PGP keys not supported when storing shares'')
      else let barrierConfig =
                 (if StoredKeysSupported env = StoredKeysSupportedGeneric
                  then (BarrierConfig p)\<lparr>SealConfig.SecretShares := 1, SecretThreshold := 1\<rparr>
                  else BarrierConfig p)\<lparr>StoredShares := 1\<rparr>
           in case Validate env barrierConfig of
                Some e \<Rightarrow> Inl (wrapErr ''invalid seal configuration: '' e)
              | None \<Rightarrow>
                  if RecoveryKeySupported env
                  then (case RecoveryConfig p of
                          None \<Rightarrow> Inl (OtherError ''recovery configuration must be supplied'')
                        | Some rc \<Rightarrow>
                            (case ValidateRecovery env rc of
                               Some e \<Rightarrow> Inl (wrapErr ''invalid recovery configuration: '' e)
                             | None \<Rightarrow> Inr barrierConfig))
                  else Inr barrierConfig)"

text \<open>
  The initialization check, the Raft bootstrap and the initialization lock. The cluster
  teardown and the unlock they defer run when \<^verbatim>\<open>initializeInternal\<close> returns, after the
  deferred seal; they only log.
\<close>

definition init_guard :: "init_env \<Rightarrow> err + unit" where
  "init_guard env =
     (case Initialized env of
        Inl e \<Rightarrow> Inl e
      | Inr init \<Rightarrow>
          if init then Inl ErrAlreadyInit
          else orFail (if hasRaftBackend env then RaftBootstrap env else None)
            (if hasHA env
             then orFail (map_option (wrapErr ''failed to generate uuid: '') (GenerateUUID env))
                 (orFail (map_option (wrapErr ''failed to create initialization lock: '') (LockWith env))
                   (case Lock env of
                      Some e \<Rightarrow> Inl ErrParallelInit
                    | None \<Rightarrow>
                        (case InitializedLocally env of
                           Inl e \<Rightarrow> Inl e
                         | Inr init2 \<Rightarrow> if init2 then Inl ErrAlreadyInit else Inr ())))
             else Inr ()))"

record init_keys =
  barrierKey :: bytes
  barrierKeyShares :: "bytes list"
  sealKey :: bytes
  sealKeyShares :: "bytes list"

text \<open>The seal's initialization, the key shares, and the creation of the barrier.\<close>

definition init_barrier :: "init_env \<Rightarrow> SealConfig \<Rightarrow> err + init_keys" where
  "init_barrier env barrierConfig =
     orFail (map_option (wrapErr ''error initializing seal: '') (sealInit env))
       (case generateShares env barrierConfig of
          Inl e \<Rightarrow> Inl e
        | Inr (bk, bks) \<Rightarrow>
            (case (if StoredShares barrierConfig = 1 \<and> BarrierTypeShamir env
                   then generateShares env barrierConfig else Inr ([], [])) of
               Inl e \<Rightarrow> Inl e
             | Inr (sk, sks) \<Rightarrow>
                 orFail (map_option (wrapErr ''failed to initialize barrier: '') (barrierInitialize env))
                   (Inr \<lparr>barrierKey = bk, barrierKeyShares = bks, sealKey = sk, sealKeyShares = sks\<rparr>)))"

text \<open>Everything between the unseal and the return, under the deferred seal.\<close>

definition init_unsealed :: "init_env \<Rightarrow> InitParams \<Rightarrow> init_keys \<Rightarrow> err + InitResult" where
  "init_unsealed env p keys =
     orFail (map_option (wrapErr ''barrier configuration saving failed: '') (SetBarrierConfig env))
       (case (case StoredKeysSupported env of
                StoredKeysSupportedShamirRoot \<Rightarrow>
                  orFail (GetShamirWrapper env)
                    (orFail (map_option (wrapErr ''failed to set seal key: '') (SetAesGcmKeyBytes env))
                      (orFail (map_option (wrapErr ''failed to store keys: '') (SetStoredKeys env))
                        (Inr (sealKeyShares keys))))
              | StoredKeysSupportedGeneric \<Rightarrow>
                  orFail (map_option (wrapErr ''failed to store keys: '') (SetStoredKeys env)) (Inr [])
              | _ \<Rightarrow> Inr (barrierKeyShares keys)) of
          Inl e \<Rightarrow> Inl e
        | Inr secretShares \<Rightarrow>
            orFail (setupCluster env)
              (orFail (postUnseal env)
                (case (if RecoveryKeySupported env
                       then orFail (map_option (wrapErr ''recovery configuration saving failed: '') (SetRecoveryConfig env))
                              (case RecoveryConfig p of
                                 None \<Rightarrow> Inr []
                               | Some rc \<Rightarrow>
                                   if SealConfig.SecretShares rc > 0
                                   then (case generateShares env rc of
                                           Inl e \<Rightarrow> Inl e
                                         | Inr (recoveryKey, recoveryUnsealKeys) \<Rightarrow>
                                             orFail (SetRecoveryKey env) (Inr recoveryUnsealKeys))
                                   else Inr [])
                       else Inr []) of
                   Inl e \<Rightarrow> Inl e
                 | Inr recoveryShares \<Rightarrow>
                     (case rootToken env of
                        Inl e \<Rightarrow> Inl e
                      | Inr token \<Rightarrow>
                          (case (if RootTokenPGPKey p \<noteq> [] then EncryptRootToken env token else Inr token) of
                             Inl e \<Rightarrow> Inl e
                           | Inr token' \<Rightarrow>
                               orFail (if hasRaftBackend env then raftCreateTLSKeyring env else None)
                                 (orFail (preSeal env)
                                   (Inr \<lparr>InitResult.SecretShares = secretShares,
                                         RecoveryShares = recoveryShares,
                                         RootToken = token'\<rparr>)))))))"

definition initializeInternal :: "init_env \<Rightarrow> InitParams \<Rightarrow> core_state \<Rightarrow> (err + InitResult) \<times> core_state" where
  "initializeInternal env p st =
     (case init_config env p of
        Inl e \<Rightarrow> (Inl e, st)
      | Inr barrierConfig \<Rightarrow>
          (case init_guard env of
             Inl e \<Rightarrow> (Inl e, st)
           | Inr u \<Rightarrow>
               (case init_barrier env barrierConfig of
                  Inl e \<Rightarrow> (Inl e, st)
                | Inr keys \<Rightarrow>
                    (case barrierUnseal env st of
                       (Some e, st1) \<Rightarrow> (Inl (wrapErr ''failed to unseal barrier: '' e), st1)
                     | (None, st1) \<Rightarrow> (init_unsealed env p keys, barrierSeal st1)))))"

definition UnsealWithStoredKeys :: "init_env \<Rightarrow> core_state \<Rightarrow> err option \<times> core_state" where
  "UnsealWithStoredKeys env st =
     (if BarrierTypeShamir env then (None, st)
      else if sealMigrationPending env
        then (Some (OtherError ''cannot auto-unseal during seal migration''), st)
      else if \<not> sealed st then (None, st)
      else case GetStoredKeys env of
        Inl e \<Rightarrow> (Some (wrapErr ''fetching stored unseal keys failed: '' e), st)
      | Inr keys \<Rightarrow>
          if length keys = 0
          then (Some (OtherError ''stored unseal keys are supported, but none were found''), st)
          else if length keys \<noteq> 1 then (Some (OtherError ''expected exactly one stored key''), st)
          else (case unsealInternal env (keys ! 0) of
                  (Some e, unsealed) \<Rightarrow>
                    (Some (wrapErr ''unseal with stored key failed: '' e), st\<lparr>sealed := \<not> unsealed\<rparr>)
                | (None, unsealed) \<Rightarrow> (None, st\<lparr>sealed := \<not> unsealed\<rparr>)))"

definition Initialize :: "init_env \<Rightarrow> InitParams \<Rightarrow> core_state \<Rightarrow> (err + InitResult) \<times> core_state" where
  "Initialize env p st =
     (case initializeInternal env p st of
        (Inl e, st1) \<Rightarrow> (Inl e, st1)
      | (Inr results, st1) \<Rightarrow>
          if RecoveryKeySupported env
          then (case GetRecoveryConfig env of
                  Inl e \<Rightarrow> (Inr results, st1)
                | Inr recoveryConfig \<Rightarrow>
                    if SealConfig.SecretShares recoveryConfig = 0
                    then (Inr results, snd (UnsealWithStoredKeys env st1))
                    else (Inr results, st1))
          else (Inr results, st1))"

text \<open>
  Two concrete seals on which every step succeeds: a Shamir seal, and an auto-unseal
  (key-management) seal that supports recovery keys and is initialized with no recovery
  shares.
\<close>

definition env_shamir :: init_env where
  "env_shamir =
     \<lparr>StoredKeysSupported = StoredKeysSupportedShamirRoot, RecoveryKeySupported = False,
      BarrierTypeShamir = True, Validate = (\<lambda>c. None), ValidateRecovery = (\<lambda>c. None),
      Initialized = Inr False, InitializedLocally = Inr False,
      hasRaftBackend = False, RaftBootstrap = None, hasHA = False, GenerateUUID = None,
      LockWith = None, Lock = None, sealInit = None,
      generateShares = (\<lambda>c. Inr (''key'', [''s1'', ''s2'', ''s3''])),
      barrierInitialize = None, barrierUnsealError = None, SetBarrierConfig = None,
      GetShamirWrapper = None, SetAesGcmKeyBytes = None, SetStoredKeys = None,
      setupCluster = None, postUnseal = None, SetRecoveryConfig = None, SetRecoveryKey = None,
      rootToken = Inr ''s.root'', EncryptRootToken = (\<lambda>t. Inr t),
      raftCreateTLSKeyring = None, preSeal = None,
      GetRecoveryConfig = Inl (OtherError ''recovery keys are not supported''),
      sealMigrationPending = False, GetStoredKeys = Inr [''key''],
      unsealInternal = (\<lambda>k. (None, True))\<rparr>"

definition env_auto :: init_env where
  "env_auto = env_shamir
     \<lparr>StoredKeysSupported := StoredKeysSupportedGeneric, RecoveryKeySupported := True,
      BarrierTypeShamir := False,
      GetRecoveryConfig := Inr \<lparr>SealConfig.SecretShares = 0, SecretThreshold = 0, StoredShares = 0, PGPKeys = []\<rparr>\<rparr>"

definition params0 :: InitParams where
  "params0 =
     \<lparr>BarrierConfig = \<lparr>SealConfig.SecretShares = 3, SecretThreshold = 2, StoredShares = 0, PGPKeys = []\<rparr>,
      RecoveryConfig = Some \<lparr>SealConfig.SecretShares = 0, SecretThreshold = 0, StoredShares = 0, PGPKeys = []\<rparr>,
      RootTokenPGPKey = []\<rparr>"

section \<open>Properties of the list operations\<close>

lemma remdups_adj_hd_tl: "remdups_adj (x # xs) = x # tl (remdups_adj (x # xs))"
  by (cases xs) auto

lemma dedup_after_Some: "dedup_after (Some p) xs = tl (remdups_adj (p # xs))"
proof (induction xs arbitrary: p)
  case Nil
  then show ?case by simp
next
  case (Cons x xs)
  show ?case
  proof (cases "p = x")
    case True
    then show ?thesis using Cons.IH [of x] by simp
  next
    case False
    then show ?thesis using Cons.IH [of x] remdups_adj_hd_tl [of x xs] by simp
  qed
qed

lemma dedup_after_None: "dedup_after None xs = remdups_adj xs"
proof (cases xs)
  case Nil
  then show ?thesis by simp
next
  case (Cons x ys)
  then show ?thesis using dedup_after_Some [of x ys] remdups_adj_hd_tl [of x ys] by simp
qed

lemma take_strings_Index: "c \<in> set s \<Longrightarrow> take (Suc (length (takeWhile (\<lambda>x. x \<noteq> c) s))) s = takeWhile (\<lambda>x. x \<noteq> c) s @ [c]"
  by (induction s) auto

lemma folder_name:
  assumes "prefix pfx k" and "strings_Index (TrimPrefix k pfx) CHR ''/'' \<noteq> - 1"
  shows "take (nat (strings_Index (TrimPrefix k pfx) CHR ''/'' + 1)) (TrimPrefix k pfx) = result_name pfx k"
    and "CHR ''/'' \<in> set (drop (length pfx) k)"
proof -
  let ?key = "drop (length pfx) k"
  have tk: "TrimPrefix k pfx = ?key" using assms(1) by (simp add: TrimPrefix_def)
  show mem: "CHR ''/'' \<in> set ?key" using assms(2) tk by (auto simp: strings_Index_def split: if_splits)
  have "nat (strings_Index ?key CHR ''/'' + 1) = Suc (length (takeWhile (\<lambda>x. x \<noteq> CHR ''/'') ?key))"
    using mem by (simp add: strings_Index_def)
  then show "take (nat (strings_Index (TrimPrefix k pfx) CHR ''/'' + 1)) (TrimPrefix k pfx) = result_name pfx k"
    using mem tk take_strings_Index [OF mem] by (simp add: result_name_def)
qed

lemma file_name:
  assumes "prefix pfx k" and "strings_Index (TrimPrefix k pfx) CHR ''/'' = - 1"
  shows "TrimPrefix k pfx = result_name pfx k" and "CHR ''/'' \<notin> set (drop (length pfx) k)"
proof -
  have tk: "TrimPrefix k pfx = drop (length pfx) k" using assms(1) by (simp add: TrimPrefix_def)
  show "CHR ''/'' \<notin> set (drop (length pfx) k)" using assms(2) tk by (auto simp: strings_Index_def split: if_splits)
  then show "TrimPrefix k pfx = result_name pfx k" using tk by (simp add: result_name_def)
qed

lemma folder_name_slash: "is_folder pfx k \<Longrightarrow> CHR ''/'' \<in> set (result_name pfx k)"
  by (simp add: is_folder_def result_name_def)

lemma file_name_no_slash: "\<not> is_folder pfx k \<Longrightarrow> CHR ''/'' \<notin> set (result_name pfx k)"
  by (simp add: is_folder_def result_name_def)

lemma file_name_inj:
  assumes "prefix pfx k" "prefix pfx k'" "\<not> is_folder pfx k" "result_name pfx k = result_name pfx k'"
  shows "k = k'"
proof -
  have "\<not> is_folder pfx k'" using assms(3,4) folder_name_slash file_name_no_slash by metis
  then have "drop (length pfx) k = drop (length pfx) k'"
    using assms(3,4) by (simp add: is_folder_def result_name_def)
  moreover have "k = pfx @ drop (length pfx) k" "k' = pfx @ drop (length pfx) k'"
    using assms(1,2) by (auto simp: prefix_def)
  ultimately show ?thesis by metis
qed

lemma listLoop_char:
  assumes "loop_inv pfx acc ks" and "limit > 0 \<longrightarrow> length acc \<le> nat limit"
  shows "listLoop pfx after limit ks acc =
    lim limit (acc @ dedup_after (last_opt acc)
       (filter (\<lambda>n. after = [] \<or> after < n) (map (result_name pfx) (takeWhile (prefix pfx) ks))))"
  using assms
proof (induction ks arbitrary: acc)
  case Nil
  then show ?case by (auto simp: lim_def)
next
  case (Cons k ks)
  let ?P = "\<lambda>n. after = [] \<or> after < n"
  let ?n = "result_name pfx k"
  have inv_tl: "loop_inv pfx acc ks" using Cons.prems(1) by (simp add: loop_inv_def)
  show ?case
  proof (cases "prefix pfx k")
    case False
    then show ?thesis using Cons.prems(2) by (simp add: lim_def)
  next
    case pre: True
    show ?thesis
    proof (cases "limit > 0 \<and> int (length acc) \<ge> limit")
      case True
      then have "length acc = nat limit" using Cons.prems(2) by linarith
      then show ?thesis using True pre by (simp add: lim_def)
    next
      case nolim: False
      have len': "limit > 0 \<longrightarrow> length (acc @ [?n]) \<le> nat limit" using nolim by auto
      have inv_app: "loop_inv pfx (acc @ [?n]) ks"
        unfolding loop_inv_def
      proof (intro conjI impI ballI)
        show "distinct ks" using Cons.prems(1) by (simp add: loop_inv_def)
      next
        fix k' assume k': "k' \<in> set ks" "prefix pfx k'" "\<not> is_folder pfx k'"
        have "k' \<noteq> k" using Cons.prems(1) k'(1) by (auto simp: loop_inv_def)
        then have "result_name pfx k' \<noteq> ?n"
          using file_name_inj [OF k'(2) pre k'(3)] by auto
        then show "result_name pfx k' \<noteq> last (acc @ [?n])" by simp
      qed
      show ?thesis
      proof (cases "strings_Index (TrimPrefix k pfx) CHR ''/'' = - 1")
        case isfile: True
        note fn = file_name [OF pre isfile]
        have nf: "\<not> is_folder pfx k" using fn(2) by (simp add: is_folder_def)
        have ne_last: "acc \<noteq> [] \<Longrightarrow> last acc \<noteq> ?n"
          using Cons.prems(1) pre nf by (auto simp: loop_inv_def)
        show ?thesis
        proof (cases "?P ?n")
          case True
          then have "listLoop pfx after limit (k # ks) acc = listLoop pfx after limit ks (acc @ [?n])"
            using pre nolim isfile fn(1) by (auto simp: Let_def)
          also have "\<dots> = lim limit ((acc @ [?n]) @ dedup_after (last_opt (acc @ [?n]))
               (filter ?P (map (result_name pfx) (takeWhile (prefix pfx) ks))))"
            by (rule Cons.IH [OF inv_app len'])
          finally show ?thesis using True pre ne_last by (auto simp: last_opt_def)
        next
          case False
          then have "listLoop pfx after limit (k # ks) acc = listLoop pfx after limit ks acc"
            using pre nolim isfile fn(1) by (auto simp: Let_def)
          then show ?thesis using Cons.IH [OF inv_tl Cons.prems(2)] False pre by simp
        qed
      next
        case isfolder: False
        note fn = folder_name [OF pre isfolder]
        show ?thesis
        proof (cases "?P ?n \<and> (acc = [] \<or> last acc \<noteq> ?n)")
          case True
          then have "listLoop pfx after limit (k # ks) acc = listLoop pfx after limit ks (acc @ [?n])"
            using pre nolim isfolder fn(1) by (auto simp: Let_def)
          also have "\<dots> = lim limit ((acc @ [?n]) @ dedup_after (last_opt (acc @ [?n]))
               (filter ?P (map (result_name pfx) (takeWhile (prefix pfx) ks))))"
            by (rule Cons.IH [OF inv_app len'])
          finally show ?thesis using True pre by (auto simp: last_opt_def)
        next
          case False
          then have "listLoop pfx after limit (k # ks) acc = listLoop pfx after limit ks acc"
            using pre nolim isfolder fn(1) by (auto simp: Let_def)
          then show ?thesis using Cons.IH [OF inv_tl Cons.prems(2)] False pre by (auto simp: last_opt_def)
        qed
      qed
    qed
  qed
qed

lemma append_less_cancel: "pfx @ a < pfx @ b \<longleftrightarrow> a < (b::string)"
  by (induction pfx) auto

lemma prefix_le: "prefix p s \<Longrightarrow> p \<le> (s::string)"
proof -
  have "p \<le> p @ r" for r :: string by (induction p) auto
  then show "prefix p s \<Longrightarrow> p \<le> s" by (auto simp: prefix_def)
qed

lemma prefix_between: "pfx \<le> k \<Longrightarrow> k < pfx @ r \<Longrightarrow> prefix pfx (k::string)"
proof (induction pfx arbitrary: k)
  case Nil
  then show ?case by simp
next
  case (Cons p ps)
  then show ?case by (cases k) (auto split: if_splits)
qed

lemma Seek_ge: "sorted_wrt (<) ks \<Longrightarrow> k \<in> set (Seek ks s) \<Longrightarrow> s \<le> (k::string)"
proof (induction ks)
  case Nil
  then show ?case by (simp add: Seek_def)
next
  case (Cons x xs)
  show ?case
  proof (cases "x < s")
    case True
    then show ?thesis using Cons by (simp add: Seek_def)
  next
    case False
    then have "k = x \<or> x < k" using Cons.prems by (auto simp: Seek_def)
    then show ?thesis using False by auto
  qed
qed

lemma Seek_sorted: "sorted_wrt (<) ks \<Longrightarrow> sorted_wrt (<) (Seek ks s)"
  unfolding Seek_def by (rule sorted_wrt_dropWhile)

lemma takeWhile_filter_prefix:
  "sorted_wrt (<) ks \<Longrightarrow> \<forall>k\<in>set ks. pfx \<le> k \<Longrightarrow> takeWhile (prefix pfx) ks = filter (prefix (pfx::string)) ks"
proof (induction ks)
  case Nil
  then show ?case by simp
next
  case (Cons x xs)
  show ?case
  proof (cases "prefix pfx x")
    case True
    then show ?thesis using Cons by simp
  next
    case False
    have "\<not> prefix pfx k'" if "k' \<in> set xs" for k'
    proof
      assume "prefix pfx k'"
      then obtain r where r: "k' = pfx @ r" by (auto simp: prefix_def)
      have "x < k'" using Cons.prems(1) that by simp
      then have "x < pfx @ r" using r by simp
      moreover have "pfx \<le> x" using Cons.prems(2) by simp
      ultimately have "prefix pfx x" by (rule prefix_between [rotated])
      then show False using False by simp
    qed
    then have "filter (prefix pfx) xs = []" by (simp add: filter_empty_conv)
    then show ?thesis using False by simp
  qed
qed

lemma seekPrefix_prefix: "prefix pfx (seekPrefix pfx after)"
  by (simp add: seekPrefix_def)

lemma listPageInner_char:
  assumes "bucket_ok b"
  shows "listPageInner b pfx after limit =
     lim limit (names_from (Seek (map fst b) (seekPrefix pfx after)) pfx after)"
proof -
  let ?ks = "Seek (map fst b) (seekPrefix pfx after)"
  have srt: "sorted_wrt (<) ?ks" using assms Seek_sorted by (simp add: bucket_ok_def)
  then have "distinct ?ks" using strict_sorted_iff by blast
  then have inv: "loop_inv pfx [] ?ks" by (simp add: loop_inv_def)
  have ge: "\<forall>k\<in>set ?ks. pfx \<le> k"
  proof
    fix k assume "k \<in> set ?ks"
    then have "seekPrefix pfx after \<le> k" using Seek_ge assms by (simp add: bucket_ok_def)
    moreover have "pfx \<le> seekPrefix pfx after" using seekPrefix_prefix prefix_le by blast
    ultimately show "pfx \<le> k" by simp
  qed
  have "listPageInner b pfx after limit = lim limit ([] @ dedup_after (last_opt [])
       (filter (\<lambda>n. after = [] \<or> after < n) (map (result_name pfx) (takeWhile (prefix pfx) ?ks))))"
    unfolding listPageInner_def by (rule listLoop_char [OF inv]) simp
  then show ?thesis
    using takeWhile_filter_prefix [OF srt ge]
    by (simp add: last_opt_def dedup_after_None names_from_def)
qed

lemma split_at_char: "c \<in> set r \<Longrightarrow> (takeWhile (\<lambda>x. x \<noteq> c) r @ [c]) @ tl (dropWhile (\<lambda>x. x \<noteq> c) r) = r"
  by (induction r) auto

lemma result_name_prefix:
  "prefix (result_name pfx (pfx @ r)) r"
proof (cases "CHR ''/'' \<in> set r")
  case True
  have "prefix (takeWhile (\<lambda>x. x \<noteq> CHR ''/'') r @ ''/'') r"
    by (rule prefixI [OF split_at_char [OF True, symmetric]])
  then show ?thesis using True by (simp add: result_name_def)
next
  case False
  then show ?thesis by (simp add: result_name_def)
qed

lemma result_name_le:
  assumes "prefix pfx k"
  shows "pfx @ result_name pfx k \<le> k"
proof -
  obtain r where k: "k = pfx @ r" using assms by (auto simp: prefix_def)
  have "prefix (pfx @ result_name pfx k) k" using k result_name_prefix [of pfx r] by simp
  then show ?thesis by (rule prefix_le)
qed

lemma names_from_Seek:
  assumes "s \<le> pfx @ after"
  shows "names_from (Seek ks s) pfx after = names_from ks pfx after"
proof -
  let ?P = "\<lambda>n. after = [] \<or> after < n"
  let ?A = "takeWhile (\<lambda>x. x < s) ks"
  have ks: "ks = ?A @ Seek ks s" by (simp add: Seek_def)
  have "\<not> ?P (result_name pfx k)" if "k \<in> set ?A" "prefix pfx k" for k
  proof -
    have "k < s" using that(1) by (auto dest: set_takeWhileD)
    then have "pfx @ result_name pfx k < pfx @ after"
      using result_name_le [OF that(2)] assms by simp
    then have "result_name pfx k < after" by (simp add: append_less_cancel)
    then show ?thesis by auto
  qed
  then have "filter ?P (map (result_name pfx) (filter (prefix pfx) ?A)) = []"
    by (auto simp: filter_empty_conv)
  then have "filter ?P (map (result_name pfx) (filter (prefix pfx) (?A @ Seek ks s)))
      = filter ?P (map (result_name pfx) (filter (prefix pfx) (Seek ks s)))"
    by simp
  then show ?thesis using ks by (simp add: names_from_def)
qed

lemma seekPrefix_empty_after: "seekPrefix pfx [] \<le> pfx @ []"
  by (simp add: seekPrefix_def)

lemma result_name_Nil [simp]: "result_name [] [] = []"
  by (simp add: result_name_def)

lemma result_name_Cons:
  "result_name [] (c # cs) = (if c = CHR ''/'' then ''/'' else c # result_name [] cs)"
  by (simp add: result_name_def)

lemma result_name_append: "result_name pfx (pfx @ r) = result_name [] r"
  by (simp add: result_name_def)

lemma result_name_mono0: "r1 \<le> r2 \<Longrightarrow> result_name [] r1 \<le> result_name [] r2"
proof (induction r1 arbitrary: r2)
  case Nil
  then show ?case by simp
next
  case (Cons c cs)
  then obtain d ds where r2: "r2 = d # ds" by (cases r2) auto
  with Cons.prems have "c < d \<or> (c = d \<and> cs \<le> ds)" by auto
  then show ?case
  proof
    assume "c < d"
    then show ?thesis unfolding r2 by (auto simp: result_name_Cons)
  next
    assume "c = d \<and> cs \<le> ds"
    then show ?thesis unfolding r2 using Cons.IH [of ds] by (auto simp: result_name_Cons)
  qed
qed

lemma result_name_mono:
  assumes "prefix pfx k1" "prefix pfx k2" "k1 \<le> k2"
  shows "result_name pfx k1 \<le> result_name pfx k2"
proof -
  obtain r1 r2 where k: "k1 = pfx @ r1" "k2 = pfx @ r2" using assms(1,2) by (auto simp: prefix_def)
  have "r1 \<le> r2" using assms(3) k append_less_cancel [of pfx r1 r2] by (auto simp: le_less)
  then show ?thesis using k result_name_mono0 by (simp add: result_name_append)
qed

lemma strict_remdups_adj: "sorted xs \<Longrightarrow> sorted_wrt (<) (remdups_adj (xs::string list))"
proof (induction xs rule: remdups_adj.induct)
  case 1
  then show ?case by simp
next
  case (2 x)
  then show ?case by simp
next
  case (3 x y xs)
  show ?case
  proof (cases "x = y")
    case True
    then show ?thesis using 3 by simp
  next
    case False
    have "x < z" if "z \<in> set (y # xs)" for z
      using 3(3) False that by auto
    then have "\<forall>z\<in>set (remdups_adj (y # xs)). x < z" by simp
    moreover have "sorted_wrt (<) (remdups_adj (y # xs))" using 3 False by simp
    ultimately show ?thesis using False by simp
  qed
qed

lemma names_sorted:
  assumes "sorted_wrt (<) ks"
  shows "sorted (map (result_name pfx) (filter (prefix pfx) ks))"
proof -
  have "sorted_wrt (<) (filter (prefix pfx) ks)" using assms by (rule sorted_wrt_filter)
  then have "sorted_wrt (\<lambda>x y. result_name pfx x \<le> result_name pfx y) (filter (prefix pfx) ks)"
  proof (rule sorted_wrt_mono_rel [rotated])
    fix x y assume "x \<in> set (filter (prefix pfx) ks)" "y \<in> set (filter (prefix pfx) ks)" "x < y"
    then show "result_name pfx x \<le> result_name pfx y"
      using result_name_mono [of pfx x y] by simp
  qed
  then show ?thesis by (simp add: sorted_wrt_map)
qed

lemma names_from_sorted:
  assumes "sorted_wrt (<) ks"
  shows "sorted_wrt (<) (names_from ks pfx after)"
proof -
  have "sorted (filter (\<lambda>n. after = [] \<or> after < n) (map (result_name pfx) (filter (prefix pfx) ks)))"
    using names_sorted [OF assms] by (rule sorted_wrt_filter)
  then show ?thesis unfolding names_from_def by (rule strict_remdups_adj)
qed

lemma names_from_filter:
  assumes "sorted_wrt (<) ks"
  shows "names_from ks pfx after = filter (\<lambda>n. after = [] \<or> after < n) (names_from ks pfx [])"
proof (rule sorted_distinct_set_unique)
  have s1: "sorted_wrt (<) (names_from ks pfx after)" using assms by (rule names_from_sorted)
  have s2: "sorted_wrt (<) (filter (\<lambda>n. after = [] \<or> after < n) (names_from ks pfx []))"
    using names_from_sorted [OF assms] by (rule sorted_wrt_filter)
  show "sorted (names_from ks pfx after)" "distinct (names_from ks pfx after)"
    using s1 strict_sorted_iff by blast+
  show "sorted (filter (\<lambda>n. after = [] \<or> after < n) (names_from ks pfx []))"
    "distinct (filter (\<lambda>n. after = [] \<or> after < n) (names_from ks pfx []))"
    using s2 strict_sorted_iff by blast+
  show "set (names_from ks pfx after) = set (filter (\<lambda>n. after = [] \<or> after < n) (names_from ks pfx []))"
    by (auto simp: names_from_def)
qed

lemma filter_after_last:
  assumes "sorted_wrt (<) (A @ B)" and "A \<noteq> []"
  shows "filter (\<lambda>n. last A < n) (A @ B) = (B::string list)"
proof -
  have A: "butlast A @ [last A] = A" using assms(2) by simp
  have "sorted_wrt (<) A" using assms(1) by (simp add: sorted_wrt_append)
  then have "sorted_wrt (<) (butlast A @ [last A])" using A by simp
  then have bl: "\<forall>x\<in>set (butlast A). x < last A" by (simp add: sorted_wrt_append)
  have "set A = insert (last A) (set (butlast A))" using A by (metis Un_insert_right append_Nil2 list.simps(15) set_append)
  then have le: "\<forall>x\<in>set A. \<not> last A < x" using bl by auto
  have gt: "\<forall>y\<in>set B. last A < y" using assms by (simp add: sorted_wrt_append)
  have "filter (\<lambda>n. last A < n) A = []" using le by (simp add: filter_empty_conv)
  moreover have "filter (\<lambda>n. last A < n) B = B" using gt by (simp add: filter_id_conv)
  ultimately show ?thesis by simp
qed

lemma ListPage_char:
  assumes "bucket_ok b" and "seekPrefix pfx after \<le> pfx @ after"
  shows "ListPage b pfx after limit = lim limit (names_from (map fst b) pfx after)"
  using listPageInner_char [OF assms(1), of pfx after limit] names_from_Seek [OF assms(2), of "map fst b"]
  by (simp add: ListPage_def)

lemma empty_name:
  assumes "prefix pfx k" and "result_name pfx k = []"
  shows "k = pfx"
proof -
  obtain r where k: "k = pfx @ r" using assms(1) by (auto simp: prefix_def)
  have "result_name [] r = []" using assms(2) k by (simp add: result_name_append)
  then have "r = []" by (cases r) (auto simp: result_name_Cons split: if_splits)
  then show ?thesis using k by simp
qed

lemma pages_cover:
  assumes ok: "bucket_ok b" and K: "0 < K"
    and noemp: "[] \<notin> set (names_from (map fst b) L [])"
    and seek: "\<forall>n\<in>set (names_from (map fst b) L []). seekPrefix L n \<le> L @ n"
  shows "names_from (map fst b) L [] = A @ B \<Longrightarrow> (A = [] \<and> a = []) \<or> (A \<noteq> [] \<and> a = last A) \<Longrightarrow>
    \<exists>pages. pages_from b L K a = Some pages \<and> concat pages = B
       \<and> (\<forall>p\<in>set pages. p \<noteq> [] \<and> length p \<le> nat K \<and> sorted_wrt (<) p)"
proof (induction "length B" arbitrary: A B a rule: less_induct)
  case less
  let ?F = "names_from (map fst b) L []"
  have srt: "sorted_wrt (<) (map fst b)" using ok by (simp add: bucket_ok_def)
  have Fs: "sorted_wrt (<) ?F" using srt by (rule names_from_sorted)
  have page: "ListPage b L a K = take (nat K) B"
  proof (cases "A = []")
    case True
    then have a: "a = []" using less.prems(2) by simp
    have "ListPage b L [] K = lim K ?F"
      by (rule ListPage_char [OF ok]) (simp add: seekPrefix_def)
    then show ?thesis using a True less.prems(1) K by (simp add: lim_def)
  next
    case False
    then have a: "a = last A" using less.prems(2) by simp
    have mem: "a \<in> set ?F" using a False less.prems(1) by simp
    then have ne: "a \<noteq> []" using noemp by metis
    have "ListPage b L a K = lim K (names_from (map fst b) L a)"
      using ListPage_char [OF ok] seek mem by blast
    also have "\<dots> = lim K (filter (\<lambda>n. a < n) ?F)"
      using names_from_filter [OF srt, of L a] ne by simp
    also have "filter (\<lambda>n. a < n) ?F = B"
      using filter_after_last [of A B] Fs False a less.prems(1) by simp
    finally show ?thesis using K by (simp add: lim_def)
  qed
  show ?case
  proof (cases "B = []")
    case True
    then have "pages_from b L K a = Some []"
      using page by (subst pages_from.simps) simp
    then show ?thesis using True by simp
  next
    case False
    let ?p = "take (nat K) B"
    have pne: "?p \<noteq> []" using False K by simp
    have lt: "length (drop (nat K) B) < length B" using False K by simp
    have F': "?F = (A @ ?p) @ drop (nat K) B" using less.prems(1) by simp
    have "(A @ ?p = [] \<and> last ?p = []) \<or> (A @ ?p \<noteq> [] \<and> last ?p = last (A @ ?p))"
      using pne by simp
    from less.hyps [OF lt F' this]
    obtain pages where pg: "pages_from b L K (last ?p) = Some pages" "concat pages = drop (nat K) B"
      "\<forall>p\<in>set pages. p \<noteq> [] \<and> length p \<le> nat K \<and> sorted_wrt (<) p" by blast
    have "pages_from b L K a = Some (?p # pages)"
      using page pne pg(1) by (subst pages_from.simps) simp
    moreover have "concat (?p # pages) = B" using pg(2) by simp
    moreover have "sorted_wrt (<) ?p"
      using Fs less.prems(1) by (simp add: sorted_wrt_append sorted_wrt_take)
    ultimately show ?thesis using pg(3) pne by auto
  qed
qed

lemma backtrack_le: "backtrack out d w \<le> w"
  by (induction w) auto

lemma cleanLoop_slash: "cleanLoop rooted d out (CHR ''/'' # rest) = cleanLoop rooted d out rest"
  by simp

lemma cleanLoop_component:
  assumes "simple_component c" and "rest = [] \<or> hd rest = CHR ''/''"
  shows "cleanLoop False d out (c @ rest) = cleanLoop False d (add_component out c) rest"
proof -
  obtain a cs where c: "c = a # cs" using assms(1) by (cases c) (auto simp: simple_component_def)
  have a: "a \<noteq> CHR ''/''" and cs: "CHR ''/'' \<notin> set cs" using assms(1) c by (auto simp: simple_component_def)
  have n1: "\<not> (a = CHR ''.'' \<and> (cs @ rest = [] \<or> hd (cs @ rest) = CHR ''/''))"
  proof
    assume h: "a = CHR ''.'' \<and> (cs @ rest = [] \<or> hd (cs @ rest) = CHR ''/'')"
    then have "cs \<noteq> []" using assms(1) c by (auto simp: simple_component_def)
    then have e: "hd (cs @ rest) = hd cs" and m: "hd cs \<in> set cs" by simp_all
    have "hd (cs @ rest) = CHR ''/''" using h \<open>cs \<noteq> []\<close> by simp
    then have "CHR ''/'' \<in> set cs" using e m by simp
    then show False using cs by simp
  qed
  have n2: "\<not> (a = CHR ''.'' \<and> cs @ rest \<noteq> [] \<and> hd (cs @ rest) = CHR ''.''
              \<and> (tl (cs @ rest) = [] \<or> hd (tl (cs @ rest)) = CHR ''/''))"
  proof
    assume h: "a = CHR ''.'' \<and> cs @ rest \<noteq> [] \<and> hd (cs @ rest) = CHR ''.''
              \<and> (tl (cs @ rest) = [] \<or> hd (tl (cs @ rest)) = CHR ''/'')"
    have "cs \<noteq> []"
    proof
      assume "cs = []"
      then show False using h assms(1,2) c by (auto simp: simple_component_def)
    qed
    then obtain b cs' where cs': "cs = b # cs'" by (cases cs) auto
    then have b: "b = CHR ''.''" using h by simp
    have "cs' \<noteq> []" using assms(1) c cs' b h by (auto simp: simple_component_def)
    then have t: "tl (cs @ rest) \<noteq> []" and e: "hd (tl (cs @ rest)) = hd cs'" and m: "hd cs' \<in> set cs"
      using cs' by simp_all
    have "hd (tl (cs @ rest)) = CHR ''/''" using h t by simp
    then have "CHR ''/'' \<in> set cs" using e m by simp
    then show False using cs by simp
  qed
  have tw: "takeWhile (\<lambda>x. x \<noteq> CHR ''/'') (a # cs @ rest) = a # cs"
    using a cs assms(2) by (cases rest) (auto simp: takeWhile_append1 takeWhile_tail)
  have dw: "dropWhile (\<lambda>x. x \<noteq> CHR ''/'') (a # cs @ rest) = rest"
    using a cs assms(2) by (cases rest) (auto simp: dropWhile_append3 dropWhile_append2)
  have "cleanLoop False d out (a # (cs @ rest)) =
      cleanLoop False d
        ((if False \<and> length out \<noteq> 1 \<or> \<not> False \<and> length out \<noteq> 0 then out @ ''/'' else out)
           @ takeWhile (\<lambda>x. x \<noteq> CHR ''/'') (a # (cs @ rest)))
        (dropWhile (\<lambda>x. x \<noteq> CHR ''/'') (a # (cs @ rest)))"
    by (subst cleanLoop.simps(2)) (simp only: a n1 n2 if_False)
  then have "cleanLoop False d out (a # (cs @ rest)) =
      cleanLoop False d ((if out \<noteq> [] then out @ ''/'' else out) @ (a # cs)) rest"
    using tw dw by simp
  then show ?thesis unfolding c by (simp add: add_component_def)
qed

lemma cleanLoop_components:
  assumes "\<forall>c\<in>set cs. simple_component c"
  shows "cleanLoop False d out (concat (map (\<lambda>c. c @ ''/'') cs) @ rest) = cleanLoop False d (foldl add_component out cs) rest"
  using assms
proof (induction cs arbitrary: out)
  case Nil
  then show ?case by simp
next
  case (Cons c cs)
  have "cleanLoop False d out (concat (map (\<lambda>c. c @ ''/'') (c # cs)) @ rest)
      = cleanLoop False d out (c @ (CHR ''/'' # concat (map (\<lambda>c. c @ ''/'') cs) @ rest))" by simp
  also have "\<dots> = cleanLoop False d (add_component out c) (CHR ''/'' # concat (map (\<lambda>c. c @ ''/'') cs) @ rest)"
    using Cons.prems by (intro cleanLoop_component) auto
  also have "\<dots> = cleanLoop False d (add_component out c) (concat (map (\<lambda>c. c @ ''/'') cs) @ rest)"
    by (rule cleanLoop_slash)
  also have "\<dots> = cleanLoop False d (foldl add_component (add_component out c) cs) rest"
    using Cons.prems by (intro Cons.IH) auto
  finally show ?case by simp
qed

lemma foldl_add_component:
  "out \<noteq> [] \<Longrightarrow> foldl add_component out cs @ ''/'' = out @ ''/'' @ concat (map (\<lambda>c. c @ ''/'') cs)"
proof (induction cs arbitrary: out)
  case Nil
  then show ?case by simp
next
  case (Cons c cs)
  have "add_component out c \<noteq> []" using Cons.prems by (simp add: add_component_def)
  from Cons.IH [OF this] show ?case using Cons.prems by (simp add: add_component_def)
qed

lemma foldl_add_component_Nil:
  assumes "cs \<noteq> []" and "\<forall>c\<in>set cs. simple_component c"
  shows "foldl add_component [] cs @ ''/'' = concat (map (\<lambda>c. c @ ''/'') cs)" and "foldl add_component [] cs \<noteq> []"
proof -
  obtain c cs' where cs: "cs = c # cs'" using assms(1) by (cases cs) auto
  have c: "c \<noteq> []" using assms(2) cs by (simp add: simple_component_def)
  have f: "foldl add_component [] cs = foldl add_component c cs'" using cs by (simp add: add_component_def)
  show "foldl add_component [] cs @ ''/'' = concat (map (\<lambda>c. c @ ''/'') cs)"
    using foldl_add_component [OF c, of cs'] f cs by simp
  have "length (concat (map (\<lambda>c. c @ ''/'') cs)) \<ge> 2" using cs c by (cases c) auto
  then show "foldl add_component [] cs \<noteq> []"
    using \<open>foldl add_component [] cs @ ''/'' = concat (map (\<lambda>c. c @ ''/'') cs)\<close>
    by (cases "foldl add_component [] cs") auto
qed

lemma name_like_cases:
  assumes "name_like n"
  obtains (plain) x where "simple_component x" "n = x \<or> n = x @ ''/''"
  | (special) "n = ''/'' \<or> n = ''.'' \<or> n = ''./'' \<or> n = ''..'' \<or> n = ''../''"
proof -
  have ne: "n \<noteq> []" and bl: "CHR ''/'' \<notin> set (butlast n)" using assms by (auto simp: name_like_def)
  have n: "butlast n @ [last n] = n" using ne by simp
  define x where "x = (if last n = CHR ''/'' then butlast n else n)"
  have nx: "n = x \<or> n = x @ ''/''"
  proof (cases "last n = CHR ''/''")
    case True
    then have "x @ ''/'' = n" using n by (simp add: x_def)
    then show ?thesis by simp
  next
    case False
    then show ?thesis by (simp add: x_def)
  qed
  have xs: "CHR ''/'' \<notin> set x"
  proof (cases "last n = CHR ''/''")
    case True
    then show ?thesis using bl by (simp add: x_def)
  next
    case False
    have "set (butlast n @ [last n]) = set (butlast n) \<union> {last n}" by simp
    then have "set n = set (butlast n) \<union> {last n}" using n by simp
    then show ?thesis using False bl by (auto simp: x_def)
  qed
  show ?thesis
  proof (cases "simple_component x")
    case True
    then show ?thesis using nx plain by blast
  next
    case False
    then have "x = [] \<or> x = ''.'' \<or> x = ''..''" using xs by (auto simp: simple_component_def)
    then have "n = ''/'' \<or> n = ''.'' \<or> n = ''./'' \<or> n = ''..'' \<or> n = ''../''"
      using nx ne by auto
    then show ?thesis using special by blast
  qed
qed

lemma cleanLoop_last_component:
  assumes "simple_component x" and "n = x \<or> n = x @ ''/''"
  shows "cleanLoop False d out n = add_component out x"
proof -
  have "cleanLoop False d out (x @ []) = cleanLoop False d (add_component out x) []"
    using assms(1) by (intro cleanLoop_component) auto
  moreover have "cleanLoop False d out (x @ ''/'') = cleanLoop False d (add_component out x) ''/''"
    using assms(1) by (intro cleanLoop_component) auto
  ultimately show ?thesis using assms(2) by auto
qed

lemma cleanLoop_special:
  assumes "n = ''/'' \<or> n = ''.'' \<or> n = ''./'' \<or> n = ''..'' \<or> n = ''../''" and "q \<noteq> []"
  shows "length (cleanLoop False 0 q n) \<le> length q"
proof -
  have s1: "cleanLoop False 0 q ''/'' = q" by simp
  have s2: "cleanLoop False 0 q ''.'' = q" by simp
  have s3: "cleanLoop False 0 q ''./'' = q" by simp
  have s4: "cleanLoop False 0 q ''..'' = take (backtrack q 0 (length q - 1)) q" using assms(2) by simp
  have s5: "cleanLoop False 0 q ''../'' = take (backtrack q 0 (length q - 1)) q" using assms(2) by simp
  have t: "length (take (backtrack q 0 (length q - 1)) q) \<le> length q" by simp
  from assms(1) show ?thesis
  proof (elim disjE)
    assume "n = ''/''" then show ?thesis by (simp only: s1)
  next
    assume "n = ''.''" then show ?thesis by (simp only: s2)
  next
    assume "n = ''./''" then show ?thesis by (simp only: s3)
  next
    assume "n = ''..''" then show ?thesis using t by (simp only: s4)
  next
    assume "n = ''../''" then show ?thesis using t by (simp only: s5)
  qed
qed

lemma Clean_special:
  assumes "n = ''/'' \<or> n = ''.'' \<or> n = ''./'' \<or> n = ''..'' \<or> n = ''../''"
  shows "Clean n \<le> n"
proof -
  have c1: "Clean ''/'' = ''/''" by (simp add: Clean_def)
  have c2: "Clean ''.'' = ''.''" by (simp add: Clean_def)
  have c3: "Clean ''./'' = ''.''" by (simp add: Clean_def)
  have c4: "Clean ''..'' = ''..''" by (simp add: Clean_def)
  have c5: "Clean ''../'' = ''..''" by (simp add: Clean_def)
  from assms show ?thesis
  proof (elim disjE)
    assume "n = ''/''" then show ?thesis by (simp only: c1)
  next
    assume "n = ''.''" then show ?thesis by (simp only: c2)
  next
    assume "n = ''./''" then show ?thesis by (simp add: c3)
  next
    assume "n = ''..''" then show ?thesis by (simp only: c4)
  next
    assume "n = ''../''" then show ?thesis by (simp add: c5)
  qed
qed

lemma seek_simple_prefix:
  assumes "simple_prefix pfx" and "name_like n"
  shows "seekPrefix pfx n \<le> pfx @ n"
proof (cases "pfx = []")
  case True
  have ne: "n \<noteq> []" using assms(2) by (simp add: name_like_def)
  have J: "Join [pfx, n] = Clean n" using True ne by simp
  have "Clean n \<le> n"
  using assms(2)
  proof (cases rule: name_like_cases)
    case (plain x)
    then obtain a xs where x: "x = a # xs" and a: "a \<noteq> CHR ''/''"
      by (cases x) (auto simp: simple_component_def)
    then have hd: "hd n \<noteq> CHR ''/''" using plain(2) by auto
    have "cleanLoop False 0 [] n = add_component [] x" using plain by (rule cleanLoop_last_component)
    then have "Clean n = x" using hd ne x by (simp add: Clean_def add_component_def)
    moreover have "prefix x n" using plain(2) by auto
    ultimately show ?thesis using prefix_le by simp
  next
    case special
    then show ?thesis by (rule Clean_special)
  qed
  then show ?thesis using True J ne by (simp add: seekPrefix_def)
next
  case False
  then obtain cs where cs: "cs \<noteq> []" "\<forall>c\<in>set cs. simple_component c" "pfx = concat (map (\<lambda>c. c @ ''/'') cs)"
    using assms(1) by (auto simp: simple_prefix_def)
  define q where "q = foldl add_component [] cs"
  have q: "q @ ''/'' = pfx" "q \<noteq> []" using foldl_add_component_Nil [OF cs(1,2)] cs(3) by (simp_all add: q_def)
  have ne: "n \<noteq> []" using assms(2) by (simp add: name_like_def)
  have hdp: "hd (pfx @ ''/'' @ n) \<noteq> CHR ''/''"
  proof -
    obtain c cs' where "cs = c # cs'" using cs(1) by (cases cs) auto
    then obtain a xs where "pfx = a # xs" "a \<noteq> CHR ''/''"
      using cs(2,3) by (cases c) (auto simp: simple_component_def)
    then show ?thesis by simp
  qed
  have loop: "cleanLoop False 0 [] (pfx @ ''/'' @ n) = cleanLoop False 0 q n"
    using cleanLoop_components [OF cs(2), of 0 "[]" "''/'' @ n"] cs(3) by (simp add: q_def)
  have J: "Join [pfx, n] = (if cleanLoop False 0 q n = [] then ''.'' else cleanLoop False 0 q n)"
    using False hdp loop by (simp add: Clean_def Let_def)
  show ?thesis
  using assms(2)
  proof (cases rule: name_like_cases)
    case (plain x)
    have "cleanLoop False 0 q n = add_component q x" using plain by (rule cleanLoop_last_component)
    then have "cleanLoop False 0 q n = pfx @ x" using q by (simp add: add_component_def)
    then have "Join [pfx, n] = pfx @ x" using J False by simp
    then have "seekPrefix pfx n = pfx @ x" using ne by (simp add: seekPrefix_def)
    moreover have "prefix (pfx @ x) (pfx @ n)" using plain(2) by auto
    ultimately show ?thesis using prefix_le by simp
  next
    case special
    have "length (cleanLoop False 0 q n) \<le> length q" using special q(2) by (rule cleanLoop_special)
    moreover have "length pfx = Suc (length q)" "1 \<le> length q" using q by (auto simp: Suc_le_eq)
    ultimately have "length (Join [pfx, n]) < length pfx" using J by auto
    then have "\<not> prefix pfx (Join [pfx, n])" by (auto simp: prefix_def)
    then have "seekPrefix pfx n = pfx" by (simp add: seekPrefix_def)
    then show ?thesis using prefix_le [of pfx "pfx @ n"] by simp
  qed
qed

lemma result_name_like:
  assumes "result_name pfx k \<noteq> []"
  shows "name_like (result_name pfx k)"
proof (cases "CHR ''/'' \<in> set (drop (length pfx) k)")
  case True
  then have "butlast (result_name pfx k) = takeWhile (\<lambda>x. x \<noteq> CHR ''/'') (drop (length pfx) k)"
    by (simp add: result_name_def butlast_append)
  moreover have "CHR ''/'' \<notin> set (takeWhile (\<lambda>x. x \<noteq> CHR ''/'') (drop (length pfx) k))"
    by (auto dest: set_takeWhileD)
  ultimately show ?thesis using assms by (simp add: name_like_def)
next
  case False
  then have "CHR ''/'' \<notin> set (butlast (result_name pfx k))"
    by (auto simp: result_name_def dest: in_set_butlastD)
  then show ?thesis using assms by (simp add: name_like_def)
qed

lemma names_from_like:
  assumes "[] \<notin> set (names_from ks pfx after)" and "n \<in> set (names_from ks pfx after)"
  shows "name_like n"
proof -
  from assms(2) obtain k where "n = result_name pfx k" by (auto simp: names_from_def)
  moreover have "n \<noteq> []" using assms by metis
  ultimately show ?thesis using result_name_like by simp
qed

lemma seek_region:
  assumes "after = [] \<or> simple_prefix pfx \<and> name_like after"
  shows "seekPrefix pfx after \<le> pfx @ after"
  using assms seekPrefix_empty_after seek_simple_prefix by blast

lemma simple_prefix_a: "simple_prefix ''a/''"
proof -
  have "simple_component ''a''" by (simp add: simple_component_def)
  then have "[''a''] \<noteq> [] \<and> (\<forall>c\<in>set [''a'']. simple_component c) \<and> ''a/'' = concat (map (\<lambda>c. c @ ''/'') [''a''])"
    by simp
  then show ?thesis unfolding simple_prefix_def by blast
qed




text \<open>
  Outside these conditions the cleaned seek key can lie above \<open>prefix + after\<close>: for the
  prefix \<^verbatim>\<open>p/\<close> and \<open>after\<close> \<^verbatim>\<open>./z\<close> it is \<^verbatim>\<open>p/z\<close>, and the cursor starts behind the
  key \<^verbatim>\<open>p/a\<close>, whose name \<^verbatim>\<open>a\<close> is greater than \<open>after\<close>. The comments of
  \<^verbatim>\<open>listPageInner\<close> say that the seek only saves looking at entries before the expected
  one, and that the fallback to the prefix is there so that no result is skipped.
\<close>

lemma seek_above_after:
  "seekPrefix ''p/'' ''./z'' = ''p/z'' \<and> \<not> ''p/z'' \<le> ''p/'' @ ''./z''
   \<and> ListPage [(''p/a'', ''v'')] ''p/'' ''./z'' 1 = []
   \<and> ListPage [(''p/a'', ''v'')] ''p/'' ''./z'' (- 1) = []
   \<and> spec_ListPage (map fst [(''p/a'', ''v'')]) ''p/'' ''./z'' 1 = [''a'']"
  by (simp add: ListPage_def listPageInner_def seekPrefix_def Seek_def Clean_def spec_ListPage_def result_name_def)

text \<open>
  Claim C3, as amended. The loop truncates only under \<^verbatim>\<open>limit > 0\<close>, so every limit
  that is not positive (\<open>-1\<close> as well as \<open>0\<close>) is not truncated: each positive-limit
  page is an initial segment of its result. Whenever the seek key is not above
  \<open>prefix + after\<close> (an empty \<open>after\<close>, or a prefix that is empty or made of plain path
  segments each followed by \<^verbatim>\<open>/\<close> with an \<open>after\<close> that is non-empty and has no
  \<^verbatim>\<open>/\<close> except as its last character), the result is the list of all matching entries:
  the collapsed, de-duplicated names of all keys with the prefix, restricted to the names
  strictly greater than \<open>after\<close> when \<open>after\<close> is non-empty. \<^verbatim>\<open>List\<close> is the call
  with an empty \<open>after\<close> and limit \<open>-1\<close>.
\<close>

theorem listPage_nonpositive_limit:
  assumes "bucket_ok b" and "limit \<le> 0"
  shows "(seekPrefix pfx after \<le> pfx @ after \<longrightarrow>
           ListPage b pfx after limit = names_from (map fst b) pfx after)
       \<and> (after = [] \<or> simple_prefix pfx \<and> name_like after \<longrightarrow>
           ListPage b pfx after limit = names_from (map fst b) pfx after)
       \<and> (after \<noteq> [] \<longrightarrow> names_from (map fst b) pfx after
             = remdups_adj (filter (\<lambda>n. after < n) (map (result_name pfx) (filter (prefix pfx) (map fst b)))))
       \<and> (\<forall>n>0. ListPage b pfx after n = take (nat n) (ListPage b pfx after limit))
       \<and> List_keys b pfx = remdups_adj (map (result_name pfx) (filter (prefix pfx) (map fst b)))"
proof -
  have whole: "ListPage b pfx after limit = names_from (map fst b) pfx after"
    if "seekPrefix pfx after \<le> pfx @ after"
    using ListPage_char [OF assms(1) that, of limit] assms(2) by (simp add: lim_def)
  have region: "ListPage b pfx after limit = names_from (map fst b) pfx after"
    if "after = [] \<or> simple_prefix pfx \<and> name_like after"
    using whole [OF seek_region [OF that]] .
  have nm: "names_from (map fst b) pfx after
             = remdups_adj (filter (\<lambda>n. after < n) (map (result_name pfx) (filter (prefix pfx) (map fst b))))"
    if "after \<noteq> []"
    using that by (simp add: names_from_def)
  have seg: "\<forall>n>0. ListPage b pfx after n = take (nat n) (ListPage b pfx after limit)"
    using assms(2) listPageInner_char [OF assms(1)] by (auto simp: ListPage_def lim_def)
  have lst: "List_keys b pfx = remdups_adj (map (result_name pfx) (filter (prefix pfx) (map fst b)))"
    unfolding List_keys_def
    using ListPage_char [OF assms(1) seekPrefix_empty_after, of pfx "- 1"] by (simp add: lim_def names_from_def)
  show ?thesis using whole region nm seg lst by blast
qed

text \<open>
  Claim C3 as stated fails for limit \<open>0\<close>: the one-key bucket is listed in full, not as
  an empty list.
\<close>

theorem listPage_limit_zero_counterexample:
  "ListPage [(''a'', ''v'')] [] [] 0 = [''a'']"
  by (simp add: ListPage_def listPageInner_def seekPrefix_def Seek_def TrimPrefix_def strings_Index_def)

text \<open>
  On a two-key bucket the limits \<open>0\<close> and \<open>-1\<close> give the same full list, and limit
  \<open>1\<close> its first entry; on the five-key bucket with prefix \<^verbatim>\<open>a/\<close> both limits give
  every name after \<^verbatim>\<open>1\<close>.
\<close>

theorem listPage_nonpositive_limit_witness:
  "bucket_ok [(''a'', ''v''), (''b/c'', ''w'')] \<and> (0::int) \<le> 0
   \<and> ListPage [(''a'', ''v''), (''b/c'', ''w'')] [] [] 0 = [''a'', ''b/'']
   \<and> ListPage [(''a'', ''v''), (''b/c'', ''w'')] [] [] (- 1) = [''a'', ''b/'']
   \<and> ListPage [(''a'', ''v''), (''b/c'', ''w'')] [] [] 1 = [''a'']
   \<and> bucket_ok [(''a/1'', ''x''), (''a/2/x'', ''y''), (''a/2/y'', ''z''), (''a/3'', ''w''), (''b'', ''u'')]
   \<and> simple_prefix ''a/'' \<and> name_like ''1''
   \<and> ListPage [(''a/1'', ''x''), (''a/2/x'', ''y''), (''a/2/y'', ''z''), (''a/3'', ''w''), (''b'', ''u'')] ''a/'' ''1'' 0 = [''2/'', ''3'']
   \<and> ListPage [(''a/1'', ''x''), (''a/2/x'', ''y''), (''a/2/y'', ''z''), (''a/3'', ''w''), (''b'', ''u'')] ''a/'' ''1'' (- 1) = [''2/'', ''3'']"
proof -
  let ?b = "[(''a'', ''v''), (''b/c'', ''w'')]"
  let ?c = "[(''a/1'', ''x''), (''a/2/x'', ''y''), (''a/2/y'', ''z''), (''a/3'', ''w''), (''b'', ''u'')]"
  have ok: "bucket_ok ?b" and okc: "bucket_ok ?c" by (simp_all add: bucket_ok_def)
  have z: "(0::int) \<le> 0" and m: "(- 1::int) \<le> 0" by simp_all
  have sp: "simple_prefix ''a/''" by (rule simple_prefix_a)
  have n1: "name_like ''1''" by (simp add: name_like_def)
  have nm: "names_from (map fst ?b) [] [] = [''a'', ''b/'']"
    by (simp add: names_from_def result_name_def)
  have nc: "names_from (map fst ?c) ''a/'' ''1'' = [''2/'', ''3'']"
    by (simp add: names_from_def result_name_def)
  have a0: "ListPage ?b [] [] 0 = [''a'', ''b/'']"
    using listPage_nonpositive_limit [OF ok z, of "[]" "[]"] nm by simp
  have a1: "ListPage ?b [] [] (- 1) = [''a'', ''b/'']"
    using listPage_nonpositive_limit [OF ok m, of "[]" "[]"] nm by simp
  have "\<forall>n>0. ListPage ?b [] [] n = take (nat n) (ListPage ?b [] [] 0)"
    using listPage_nonpositive_limit [OF ok z, of "[]" "[]"] by blast
  then have "ListPage ?b [] [] 1 = take (nat 1) (ListPage ?b [] [] 0)" by simp
  then have a2: "ListPage ?b [] [] 1 = [''a'']" using a0 by simp
  have c0: "ListPage ?c ''a/'' ''1'' 0 = [''2/'', ''3'']"
    using listPage_nonpositive_limit [OF okc z, of "''a/''" "''1''"] sp n1 nc by simp
  have c1: "ListPage ?c ''a/'' ''1'' (- 1) = [''2/'', ''3'']"
    using listPage_nonpositive_limit [OF okc m, of "''a/''" "''1''"] sp n1 nc by simp
  show ?thesis using ok okc sp n1 a0 a1 a2 c0 c1 by simp
qed

lemma List_keys_char:
  assumes "bucket_ok b"
  shows "List_keys b L = names_from (map fst b) L []"
  unfolding List_keys_def
  using ListPage_char [OF assms, of L "[]" "- 1"] by (simp add: seekPrefix_def lim_def)

lemma no_empty_name:
  assumes "L \<notin> fst ` set b"
  shows "[] \<notin> set (names_from (map fst b) L [])"
proof
  assume "[] \<in> set (names_from (map fst b) L [])"
  then obtain k where "k \<in> fst ` set b" "prefix L k" "result_name L k = []"
    by (fastforce simp: names_from_def)
  then show False using empty_name assms by blast
qed

text \<open>
  Claim C4, as amended. For a bucket in key order in which no key is the prefix itself,
  a positive page size, and a prefix that is empty or made of plain path segments each
  followed by \<^verbatim>\<open>/\<close> (or any prefix for which the seek key computed from each listed
  name is not above \<open>prefix + name\<close>), the page loop stops, the concatenation of its pages is
  the unpaginated list, that list is strictly ascending (so free of duplicates), and each
  page is non-empty, within the page size and strictly ascending.
\<close>

theorem pagination_closure:
  assumes "bucket_ok b" and "0 < K" and "L \<notin> fst ` set b"
    and "simple_prefix L \<or> (\<forall>n\<in>set (List_keys b L). seekPrefix L n \<le> L @ n)"
  shows "\<exists>pages. pages_from b L K [] = Some pages \<and> concat pages = List_keys b L
           \<and> sorted_wrt (<) (concat pages) \<and> distinct (concat pages)
           \<and> (\<forall>p\<in>set pages. p \<noteq> [] \<and> length p \<le> nat K \<and> sorted_wrt (<) p)"
proof -
  let ?F = "names_from (map fst b) L []"
  have F: "List_keys b L = ?F" using assms(1) by (rule List_keys_char)
  have seek: "\<forall>n\<in>set ?F. seekPrefix L n \<le> L @ n"
  proof (cases "simple_prefix L")
    case True
    show ?thesis
    proof
      fix n assume "n \<in> set ?F"
      then have "name_like n" using names_from_like [OF no_empty_name [OF assms(3)]] by blast
      then show "seekPrefix L n \<le> L @ n" using True by (intro seek_simple_prefix)
    qed
  next
    case False
    then show ?thesis using assms(4) F by simp
  qed
  have "?F = [] @ ?F" by simp
  from pages_cover [OF assms(1,2) no_empty_name [OF assms(3)] seek this, of "[]"]
  obtain pages where pg: "pages_from b L K [] = Some pages" "concat pages = ?F"
    "\<forall>p\<in>set pages. p \<noteq> [] \<and> length p \<le> nat K \<and> sorted_wrt (<) p" by auto
  have "sorted_wrt (<) ?F" using assms(1) names_from_sorted by (simp add: bucket_ok_def)
  then have "sorted_wrt (<) (concat pages)" "distinct (concat pages)"
    using pg(2) strict_sorted_iff by auto
  then show ?thesis using pg F by auto
qed

lemma pages_from_loop:
  assumes "pages_from b L K a = Some y"
  shows "\<not> (ListPage b L a K \<noteq> [] \<and> last (ListPage b L a K) = a)"
proof (rule pages_from.raw_induct
    [where P = "\<lambda>b L K a y. \<not> (ListPage b L a K \<noteq> [] \<and> last (ListPage b L a K) = a)", OF _ assms])
  fix f :: "bucket \<Rightarrow> string \<Rightarrow> int \<Rightarrow> string \<Rightarrow> string list list option"
  fix b L K a y
  assume IH: "\<And>b L K a y. f b L K a = Some y \<Longrightarrow> \<not> (ListPage b L a K \<noteq> [] \<and> last (ListPage b L a K) = a)"
  assume body: "(if ListPage b L a K = [] then Some []
      else Option.bind (f b L K (last (ListPage b L a K))) (\<lambda>rest. Some (ListPage b L a K # rest))) = Some y"
  show "\<not> (ListPage b L a K \<noteq> [] \<and> last (ListPage b L a K) = a)"
  proof
    assume loop: "ListPage b L a K \<noteq> [] \<and> last (ListPage b L a K) = a"
    then obtain rest where "f b L K a = Some rest"
      using body by (auto simp: bind_eq_Some_conv)
    from IH [OF this] loop show False by blast
  qed
qed

text \<open>
  Claim C4 as stated fails in two ways. With prefix \<^verbatim>\<open>fo\<close> (no trailing slash) the
  second page seeks \<^verbatim>\<open>fo/!\<close>, which lies behind the key \<^verbatim>\<open>fo#\<close>: the loop stops
  after one page and the name \<^verbatim>\<open>#\<close> is never returned. With a key equal to the prefix
  the first page is the empty name, the next call has an empty \<open>after\<close> again, and the
  loop never reaches an empty page.
\<close>

theorem pagination_closure_counterexample:
  "pages_from [(''fo!'', ''v''), (''fo#'', ''w'')] ''fo'' 1 [] = Some [[''!'']]
   \<and> List_keys [(''fo!'', ''v''), (''fo#'', ''w'')] ''fo'' = [''!'', ''#'']
   \<and> pages_from [(''a/'', ''v''), (''a/b'', ''w'')] ''a/'' 1 [] = None
   \<and> List_keys [(''a/'', ''v''), (''a/b'', ''w'')] ''a/'' = [[], ''b'']"
proof -
  let ?b = "[(''fo!'', ''v''), (''fo#'', ''w'')]"
  let ?c = "[(''a/'', ''v''), (''a/b'', ''w'')]"
  have p1: "ListPage ?b ''fo'' [] 1 = [''!'']"
    by (simp add: ListPage_def listPageInner_def seekPrefix_def Seek_def TrimPrefix_def strings_Index_def)
  have p2: "ListPage ?b ''fo'' ''!'' 1 = []"
    by (simp add: ListPage_def listPageInner_def seekPrefix_def Seek_def Clean_def)
  have "pages_from ?b ''fo'' 1 ''!'' = Some []"
    using p2 by (subst pages_from.simps) simp
  then have a: "pages_from ?b ''fo'' 1 [] = Some [[''!'']]"
    using p1 by (subst pages_from.simps) simp
  have b: "List_keys ?b ''fo'' = [''!'', ''#'']"
    by (simp add: List_keys_def ListPage_def listPageInner_def seekPrefix_def Seek_def TrimPrefix_def strings_Index_def)
  have q1: "ListPage ?c ''a/'' [] 1 = [[]]"
    by (simp add: ListPage_def listPageInner_def seekPrefix_def Seek_def TrimPrefix_def strings_Index_def)
  have c: "pages_from ?c ''a/'' 1 [] = None"
  proof (cases "pages_from ?c ''a/'' 1 []")
    case None
    then show ?thesis .
  next
    case (Some y)
    from pages_from_loop [OF this] q1 show ?thesis by simp
  qed
  have d: "List_keys ?c ''a/'' = [[], ''b'']"
    by (simp add: List_keys_def ListPage_def listPageInner_def seekPrefix_def Seek_def TrimPrefix_def strings_Index_def)
  from a b c d show ?thesis by simp
qed

text \<open>
  The hypotheses of C4 hold on the five-key bucket with prefix \<^verbatim>\<open>a/\<close> and page size 2.
\<close>

theorem pagination_closure_witness:
  "bucket_ok [(''a/1'', ''x''), (''a/2/x'', ''y''), (''a/2/y'', ''z''), (''a/3'', ''w''), (''b'', ''u'')]
   \<and> (0::int) < 2
   \<and> ''a/'' \<notin> fst ` set [(''a/1'', ''x''), (''a/2/x'', ''y''), (''a/2/y'', ''z''), (''a/3'', ''w''), (''b'', ''u'')]
   \<and> simple_prefix ''a/''
   \<and> (\<exists>pages. pages_from [(''a/1'', ''x''), (''a/2/x'', ''y''), (''a/2/y'', ''z''), (''a/3'', ''w''), (''b'', ''u'')] ''a/'' 2 [] = Some pages
         \<and> concat pages = [''1'', ''2/'', ''3''])"
proof -
  let ?b = "[(''a/1'', ''x''), (''a/2/x'', ''y''), (''a/2/y'', ''z''), (''a/3'', ''w''), (''b'', ''u'')]"
  have ok: "bucket_ok ?b" by (simp add: bucket_ok_def)
  have K: "(0::int) < 2" by simp
  have nk: "''a/'' \<notin> fst ` set ?b" by simp
  have full: "List_keys ?b ''a/'' = [''1'', ''2/'', ''3'']"
    by (simp add: List_keys_def ListPage_def listPageInner_def seekPrefix_def Seek_def TrimPrefix_def strings_Index_def)
  have "simple_component ''a''" by (simp add: simple_component_def)
  then have "[''a''] \<noteq> [] \<and> (\<forall>c\<in>set [''a'']. simple_component c) \<and> ''a/'' = concat (map (\<lambda>c. c @ ''/'') [''a''])"
    by simp
  then have sp: "simple_prefix ''a/''" unfolding simple_prefix_def by blast
  then have sk: "simple_prefix ''a/'' \<or> (\<forall>n\<in>set (List_keys ?b ''a/''). seekPrefix ''a/'' n \<le> ''a/'' @ n)"
    by simp
  from pagination_closure [OF ok K nk sk] full ok nk sp show ?thesis by auto
qed

section \<open>Properties of the apply path\<close>

lemmas op_defs = deleteOp_def putOp_def restoreCallbackOp_def getOp_def verifyReadOp_def
  verifyListOp_def beginTxOp_def commitTxOp_def

lemma verifyLoop_inTx: "inTx (snd (verifyLoop env all b ts idx ops)) = inTx ts"
  by (induction env all b ts idx ops rule: verifyLoop.induct)
     (auto simp: setStartIndex_def split: sum.splits option.splits)

lemma shape_error_commit_failure: "is_TxCommitFailure (txShapeError env)"
  by (simp add: txShapeError_def)

lemma verifyLoop_tail_err:
  "1 \<le> idx \<Longrightarrow> ops = drop idx all \<Longrightarrow> verifyLoop env all b ts idx ops = (Some e, ts') \<Longrightarrow>
     ts' = ts \<and> (e = txShapeError env \<or> (\<exists>op\<in>set ops. verifyOp env ts b op = Some e))"
proof (induction ops arbitrary: idx)
  case Nil
  then show ?case by simp
next
  case (Cons op ops)
  have idx: "idx < length all" using Cons.prems(2) by (metis drop_eq_Nil leI list.distinct(1))
  have op: "op = all ! idx" using Cons.prems(2) idx by (metis Cons_nth_drop_Suc list.inject)
  have tl: "ops = drop (Suc idx) all" using Cons.prems(2) idx by (metis Cons_nth_drop_Suc list.inject)
  have S: "1 \<le> Suc idx" by simp
  note IH = Cons.IH [OF S tl]
  show ?case
  proof (cases "OpType op = beginTxOp \<or> OpType op = commitTxOp")
    case True
    have eq: "verifyLoop env all b ts idx (op # ops) =
        (if OpType (all ! 0) \<noteq> beginTxOp \<or> OpType (all ! (length all - 1)) \<noteq> commitTxOp
            \<or> (idx \<noteq> 0 \<and> idx \<noteq> length all - 1)
         then (Some (txShapeError env), ts)
         else if OpType op = beginTxOp then
           (case parseBeginTxOpValue env (LogOperation.Value op) of
              Inl e \<Rightarrow> (Some e, ts)
            | Inr s \<Rightarrow> verifyLoop env all b (setStartIndex ts s) (Suc idx) ops)
         else verifyLoop env all b ts (Suc idx) ops)"
      by (subst verifyLoop.simps(2)) (simp only: True if_True)
    show ?thesis
    proof (cases "OpType (all ! 0) \<noteq> beginTxOp \<or> OpType (all ! (length all - 1)) \<noteq> commitTxOp
            \<or> (idx \<noteq> 0 \<and> idx \<noteq> length all - 1)")
      case bad: True
      have "verifyLoop env all b ts idx (op # ops) = (Some (txShapeError env), ts)"
        by (simp only: eq bad if_True)
      then show ?thesis using Cons.prems(3) by simp
    next
      case good: False
      then have "idx = length all - 1" "OpType (all ! (length all - 1)) = commitTxOp"
        using Cons.prems(1) by auto
      then have "OpType op = commitTxOp" using op by simp
      then have nb: "OpType op \<noteq> beginTxOp" by (simp add: op_defs)
      have "verifyLoop env all b ts idx (op # ops) = verifyLoop env all b ts (Suc idx) ops"
        by (simp only: eq good nb if_False)
      then have "verifyLoop env all b ts (Suc idx) ops = (Some e, ts')" using Cons.prems(3) by simp
      from IH [OF this] show ?thesis by auto
    qed
  next
    case False
    then have "(verifyOp env ts b op = Some e \<and> ts' = ts)
        \<or> verifyLoop env all b ts (Suc idx) ops = (Some e, ts')"
      using Cons.prems(3) by (auto simp: verifyOp_def op_defs split: if_splits option.splits)
    then show ?thesis using IH by auto
  qed
qed

lemma verifyLoop_tail:
  "1 \<le> idx \<Longrightarrow> ops = drop idx all \<Longrightarrow> verifyLoop env all b ts idx ops = (None, ts') \<Longrightarrow>
     ts' = ts \<and> (\<forall>op\<in>set ops. verifyOp env ts b op = None)"
proof (induction ops arbitrary: idx)
  case Nil
  then show ?case by simp
next
  case (Cons op ops)
  have idx: "idx < length all" using Cons.prems(2) by (metis drop_eq_Nil leI list.distinct(1))
  have op: "op = all ! idx" using Cons.prems(2) idx by (metis Cons_nth_drop_Suc list.inject)
  have tl: "ops = drop (Suc idx) all" using Cons.prems(2) idx by (metis Cons_nth_drop_Suc list.inject)
  have S: "1 \<le> Suc idx" by simp
  note IH = Cons.IH [OF S tl]
  show ?case
  proof (cases "OpType op = beginTxOp \<or> OpType op = commitTxOp")
    case True
    with Cons.prems(3) have chk: "OpType (all ! (length all - 1)) = commitTxOp" "idx = length all - 1"
      using Cons.prems(1) by (auto split: if_splits)
    then have "OpType op = commitTxOp" using op by simp
    then have nb: "OpType op \<noteq> beginTxOp" by (simp add: op_defs)
    then have "verifyLoop env all b ts (Suc idx) ops = (None, ts')"
      using Cons.prems(3) True by (auto split: if_splits)
    from IH [OF this] show ?thesis using \<open>OpType op = commitTxOp\<close> by (auto simp: verifyOp_def op_defs)
  next
    case False
    then have "verifyLoop env all b ts (Suc idx) ops = (None, ts') \<and> verifyOp env ts b op = None"
      using Cons.prems(3) by (auto simp: verifyOp_def op_defs split: if_splits option.splits)
    then show ?thesis using IH by auto
  qed
qed

lemma verifyLoop_pass:
  assumes "ops \<noteq> []" and "OpType (ops ! 0) = beginTxOp"
    and "parseBeginTxOpValue env (LogOperation.Value (ops ! 0)) = Inr s"
    and "verifyLoop env ops b ts 0 ops = (None, ts')"
  shows "\<forall>op\<in>set ops. verifyOp env (setStartIndex ts s) b op = None"
proof -
  obtain op rest where ops: "ops = op # rest" using assms(1) by (cases ops) auto
  have b: "OpType op = beginTxOp" using assms(2) ops by simp
  have s: "parseBeginTxOpValue env (LogOperation.Value op) = Inr s" using assms(3) ops by simp
  from assms(4) have rec: "verifyLoop env ops b (setStartIndex ts s) (Suc 0) rest = (None, ts')"
    unfolding ops using b s by (auto split: if_splits sum.splits)
  have "rest = drop (Suc 0) ops" using ops by simp
  from verifyLoop_tail [OF _ this rec] have "\<forall>op\<in>set rest. verifyOp env (setStartIndex ts s) b op = None"
    by simp
  moreover have "verifyOp env (setStartIndex ts s) b op = None" using b by (simp add: verifyOp_def op_defs)
  ultimately show ?thesis using ops by simp
qed

lemma verifyLoop_head_err:
  assumes "ops \<noteq> []" and "OpType (ops ! 0) = beginTxOp"
    and "verifyLoop env ops b ts 0 ops = (Some e, ts')"
  shows "(OpType (last ops) \<noteq> commitTxOp \<and> e = txShapeError env \<and> ts' = ts)
       \<or> (OpType (last ops) = commitTxOp \<and> parseBeginTxOpValue env (LogOperation.Value (ops ! 0)) = Inl e \<and> ts' = ts)
       \<or> (OpType (last ops) = commitTxOp
            \<and> (\<exists>s. parseBeginTxOpValue env (LogOperation.Value (ops ! 0)) = Inr s \<and> ts' = setStartIndex ts s
                  \<and> (e = txShapeError env \<or> (\<exists>op\<in>set ops. verifyOp env (setStartIndex ts s) b op = Some e))))"
proof -
  obtain op rest where ops: "ops = op # rest" using assms(1) by (cases ops) auto
  have b: "OpType op = beginTxOp" using assms(2) ops by simp
  have lst: "ops ! (length ops - 1) = last ops" using assms(1) by (simp add: last_conv_nth)
  show ?thesis
  proof (cases "OpType (last ops) = commitTxOp")
    case False
    then have "verifyLoop env ops b ts 0 ops = (Some (txShapeError env), ts)"
      using b lst unfolding ops by simp
    then show ?thesis using assms(3) False by simp
  next
    case True
    then have step: "verifyLoop env ops b ts 0 ops =
        (case parseBeginTxOpValue env (LogOperation.Value op) of
           Inl e \<Rightarrow> (Some e, ts)
         | Inr s \<Rightarrow> verifyLoop env ops b (setStartIndex ts s) (Suc 0) rest)"
      using b lst unfolding ops by simp
    show ?thesis
    proof (cases "parseBeginTxOpValue env (LogOperation.Value op)")
      case (Inl e')
      then show ?thesis using step assms(3) True ops by simp
    next
      case (Inr s)
      then have rec: "verifyLoop env ops b (setStartIndex ts s) (Suc 0) rest = (Some e, ts')"
        using step assms(3) by simp
      have "rest = drop (Suc 0) ops" using ops by simp
      from verifyLoop_tail_err [OF _ this rec]
      have "ts' = setStartIndex ts s"
        and "e = txShapeError env \<or> (\<exists>op\<in>set rest. verifyOp env (setStartIndex ts s) b op = Some e)"
        by simp_all
      then show ?thesis using True Inr ops by auto
    qed
  qed
qed

lemma verifyLoop_interior:
  "ops = drop idx all \<Longrightarrow> idx \<le> i \<Longrightarrow> i < length all \<Longrightarrow> i \<noteq> 0 \<Longrightarrow> i \<noteq> length all - 1 \<Longrightarrow>
   OpType (all ! i) = beginTxOp \<or> OpType (all ! i) = commitTxOp \<Longrightarrow>
   fst (verifyLoop env all b ts idx ops) \<noteq> None"
proof (induction ops arbitrary: idx ts)
  case Nil
  then show ?case by simp
next
  case (Cons op ops)
  have idx: "idx < length all" using Cons.prems(1) by (metis drop_eq_Nil leI list.distinct(1))
  have op: "op = all ! idx" using Cons.prems(1) idx by (metis Cons_nth_drop_Suc list.inject)
  have tl: "ops = drop (Suc idx) all" using Cons.prems(1) idx by (metis Cons_nth_drop_Suc list.inject)
  show ?case
  proof (cases "idx = i")
    case True
    have "OpType op = beginTxOp \<or> OpType op = commitTxOp" using Cons.prems(6) op True by simp
    then have "verifyLoop env all b ts idx (op # ops) = (Some (txShapeError env), ts)"
      using True Cons.prems(4,5) by simp
    then show ?thesis by simp
  next
    case False
    then have le: "Suc idx \<le> i" using Cons.prems(2) by simp
    have IH: "fst (verifyLoop env all b ts' (Suc idx) ops) \<noteq> None" for ts'
      using Cons.IH [OF tl le Cons.prems(3,4,5,6)] .
    show ?thesis using IH by (auto split: sum.splits option.splits)
  qed
qed

lemma verifyLoop_shape:
  assumes "ops \<noteq> []" and "OpType (ops ! 0) = beginTxOp" and "shape_violated ops"
  shows "fst (verifyLoop env ops b ts 0 ops) \<noteq> None"
proof (cases "OpType (last ops) \<noteq> commitTxOp")
  case True
  obtain op rest where ops: "ops = op # rest" using assms(1) by (cases ops) auto
  have "OpType (ops ! (length ops - 1)) \<noteq> commitTxOp" using True assms(1) by (simp add: last_conv_nth)
  then show ?thesis using assms(2) unfolding ops by simp
next
  case False
  then obtain i where i: "0 < i" "i < length ops - 1" "OpType (ops ! i) = beginTxOp \<or> OpType (ops ! i) = commitTxOp"
    using assms(3) by (auto simp: shape_violated_def)
  show ?thesis
    by (rule verifyLoop_interior [of ops 0 ops i]) (use i in auto)
qed

lemma nonTx_inTx:
  "applyBatchNonTxOps env b ts ops = (r, b', ts') \<Longrightarrow> inTx ts' = inTx ts"
  by (induction env b ts ops rule: applyBatchNonTxOps.induct)
     (auto simp: logWrite_def split: sum.splits if_splits)

lemma applyBatchTxOps_reject:
  assumes "verifyLoop env ops b (setInTx ts) 0 ops = (Some e, ts1)"
  shows "applyBatchTxOps env b ts ops = (Some e, b, ts1)" and "getInTx ts1"
proof -
  show "applyBatchTxOps env b ts ops = (Some e, b, ts1)"
    using assms by (simp add: applyBatchTxOps_def)
  have "inTx (snd (verifyLoop env ops b (setInTx ts) 0 ops)) = inTx (setInTx ts)"
    by (rule verifyLoop_inTx)
  then show "getInTx ts1" using assms by (simp add: getInTx_def setInTx_def)
qed

lemma applyCommands_step:
  "(\<exists>s1 sl. slice_ok sl \<and> (\<forall>cs. applyCommands env logs latest ci s (c # cs) =
        (case applyCommands env logs latest (Suc ci) s1 cs of (r, s2, es) \<Rightarrow> (r, s2, sl # es))))
   \<or> (\<exists>e s1 es. (\<forall>x\<in>set es. slice_ok x) \<and> (\<forall>cs. applyCommands env logs latest ci s (c # cs) = (Some e, s1, es)))"
proof -
  obtain b cb where s: "s = (b, cb)" by (cases s)
  show ?thesis
  proof (cases c)
    case (CmdLogData ops)
    obtain r0 b' ts where a: "(if length ops = 0 \<or> OpType (ops ! 0) \<noteq> beginTxOp
            then applyBatchNonTxOps env b (applyState latest ci (Log.Index (logs ! ci))) ops
            else applyBatchTxOps env b (applyState latest ci (Log.Index (logs ! ci))) ops) = (r0, b', ts)"
      by (metis prod.exhaust)
    show ?thesis
    proof (cases r0)
      case None
      have "slice_ok []" by (simp add: slice_ok_def)
      moreover have "applyCommands env logs latest ci s (c # cs) =
        (case applyCommands env logs latest (Suc ci) (b', cb) cs of (r, s2, es) \<Rightarrow> (r, s2, [] # es))" for cs
        unfolding s CmdLogData applyCommands.simps a None by simp
      ultimately show ?thesis by blast
    next
      case (Some e)
      show ?thesis
      proof (cases "getInTx ts \<and> is_TxCommitFailure e")
        case True
        then have "slice_ok [txErrorEntry e]" by (auto simp: slice_ok_def)
        moreover have "applyCommands env logs latest ci s (c # cs) =
          (case applyCommands env logs latest (Suc ci) (b', cb) cs of (r, s2, es) \<Rightarrow> (r, s2, [txErrorEntry e] # es))" for cs
          unfolding s CmdLogData applyCommands.simps a Some using True by simp
        ultimately show ?thesis by blast
      next
        case False
        have "applyCommands env logs latest ci s (c # cs) = (Some e, (b', cb), [[]])" for cs
          unfolding s CmdLogData applyCommands.simps a Some using False by auto
        moreover have "\<forall>x\<in>set [[]]. slice_ok x" by (simp add: slice_ok_def)
        ultimately show ?thesis by blast
      qed
    qed
  next
    case (CmdConfiguration cfg)
    show ?thesis
    proof (cases "marshalConfiguration env cfg")
      case (Inl e)
      then have "applyCommands env logs latest ci s (c # cs) = (Some e, (b, cb), [])" for cs
        unfolding s CmdConfiguration by simp
      moreover have "\<forall>x\<in>set []. slice_ok x" by simp
      ultimately show ?thesis by blast
    next
      case (Inr bs)
      show ?thesis
      proof (cases "bucketPut env cb latestConfigKey bs")
        case (Inl e)
        then have "applyCommands env logs latest ci s (c # cs) = (Some e, (b, cb), [])" for cs
          unfolding s CmdConfiguration using \<open>marshalConfiguration env cfg = Inr bs\<close> by simp
        moreover have "\<forall>x\<in>set []. slice_ok x" by simp
        ultimately show ?thesis by blast
      next
        case (Inr cb')
        have "slice_ok []" by (simp add: slice_ok_def)
        moreover have "applyCommands env logs latest ci s (c # cs) =
          (case applyCommands env logs latest (Suc ci) (b, cb') cs of (r, s2, es) \<Rightarrow> (r, s2, [] # es))" for cs
          unfolding s CmdConfiguration using Inr \<open>marshalConfiguration env cfg = Inr bs\<close> by simp
        ultimately show ?thesis by blast
      qed
    qed
  qed
qed

lemma applyCommands_Nil: "applyCommands env logs latest ci s [] = (None, s, [])"
  by (cases s) simp

lemma applyCommands_append:
  "applyCommands env logs latest ci s (pre @ rest) =
     (case applyCommands env logs latest ci s pre of
        (Some e, s', es) \<Rightarrow> (Some e, s', es)
      | (None, s', es) \<Rightarrow>
          (case applyCommands env logs latest (ci + length pre) s' rest of
             (r, s'', es') \<Rightarrow> (r, s'', es @ es')))"
proof (induction pre arbitrary: ci s)
  case Nil
  obtain r s2 es where "applyCommands env logs latest ci s rest = (r, s2, es)" by (metis prod.exhaust)
  then show ?case by (simp add: applyCommands_Nil)
next
  case (Cons c pre)
  from applyCommands_step [of env logs latest ci s c]
  show ?case
  proof
    assume "\<exists>s1 sl. slice_ok sl \<and> (\<forall>cs. applyCommands env logs latest ci s (c # cs) =
        (case applyCommands env logs latest (Suc ci) s1 cs of (r, s2, es) \<Rightarrow> (r, s2, sl # es)))"
    then obtain s1 sl where eq: "\<And>cs. applyCommands env logs latest ci s (c # cs) =
        (case applyCommands env logs latest (Suc ci) s1 cs of (r, s2, es) \<Rightarrow> (r, s2, sl # es))" by blast
    obtain r1 s2 es1 where p: "applyCommands env logs latest (Suc ci) s1 pre = (r1, s2, es1)"
      by (metis prod.exhaust)
    obtain r3 s3 es3 where q: "applyCommands env logs latest (Suc ci + length pre) s2 rest = (r3, s3, es3)"
      by (metis prod.exhaust)
    have IH: "applyCommands env logs latest (Suc ci) s1 (pre @ rest) =
      (case r1 of Some e \<Rightarrow> (Some e, s2, es1) | None \<Rightarrow> (r3, s3, es1 @ es3))"
      using Cons.IH [of "Suc ci" s1] p q by (simp split: option.splits)
    show ?thesis
      using eq [of "pre @ rest"] eq [of pre] IH p q by (cases r1) simp_all
  next
    assume "\<exists>e s1 es. (\<forall>x\<in>set es. slice_ok x) \<and> (\<forall>cs. applyCommands env logs latest ci s (c # cs) = (Some e, s1, es))"
    then obtain e s1 es where eq: "\<And>cs. applyCommands env logs latest ci s (c # cs) = (Some e, s1, es)" by blast
    show ?thesis using eq [of "pre @ rest"] eq [of pre] by simp
  qed
qed

lemma applyCommands_tx_reject:
  assumes "length ops \<noteq> 0" and "OpType (ops ! 0) = beginTxOp"
    and "verifyLoop env ops b (setInTx (applyState latest ci (Log.Index (logs ! ci)))) 0 ops = (Some e, ts1)"
    and "is_TxCommitFailure e"
  shows "applyCommands env logs latest ci (b, cb) (CmdLogData ops # cs) =
     (case applyCommands env logs latest (Suc ci) (b, cb) cs of
        (r, s, es) \<Rightarrow> (r, s, [txErrorEntry e] # es))"
  using assms applyBatchTxOps_reject [OF assms(3)] by simp

lemma applyCommands_slices:
  "applyCommands env logs latest ci s cs = (r, s', es) \<Longrightarrow>
     (\<forall>x\<in>set es. slice_ok x) \<and> (r = None \<longrightarrow> length es = length cs)"
proof (induction cs arbitrary: ci s r s' es)
  case Nil
  then show ?case by (simp add: applyCommands_Nil)
next
  case (Cons c cs)
  from applyCommands_step [of env logs latest ci s c]
  show ?case
  proof
    assume "\<exists>s1 sl. slice_ok sl \<and> (\<forall>cs. applyCommands env logs latest ci s (c # cs) =
        (case applyCommands env logs latest (Suc ci) s1 cs of (r, s2, es) \<Rightarrow> (r, s2, sl # es)))"
    then obtain s1 sl where sl: "slice_ok sl" and eq: "applyCommands env logs latest ci s (c # cs) =
        (case applyCommands env logs latest (Suc ci) s1 cs of (r, s2, es) \<Rightarrow> (r, s2, sl # es))" by blast
    obtain r1 s2 es1 where rec: "applyCommands env logs latest (Suc ci) s1 cs = (r1, s2, es1)"
      by (metis prod.exhaust)
    from Cons.prems eq rec have "r = r1" "es = sl # es1" by auto
    then show ?thesis using Cons.IH [OF rec] sl by auto
  next
    assume "\<exists>e s1 es. (\<forall>x\<in>set es. slice_ok x) \<and> (\<forall>cs. applyCommands env logs latest ci s (c # cs) = (Some e, s1, es))"
    then show ?thesis using Cons.prems by auto
  qed
qed

lemma decodeLogs_length: "decodeLogs env logs = Inr (cs, lc) \<Longrightarrow> length cs = length logs"
  by (induction logs arbitrary: cs lc) (auto split: LogType.splits sum.splits prod.splits)

lemma decodeLogs_bad_type:
  "l \<in> set logs \<Longrightarrow> Type l \<noteq> LogCommand \<Longrightarrow> Type l \<noteq> LogConfiguration \<Longrightarrow> \<exists>m. decodeLogs env logs = Inl m"
  by (induction logs) (auto split: LogType.splits sum.splits prod.splits)

lemma decodeLogs_bad_data:
  "l \<in> set logs \<Longrightarrow> Type l = LogCommand \<Longrightarrow> unmarshalLogData env (Data l) = Inl e \<Longrightarrow> \<exists>m. decodeLogs env logs = Inl m"
  by (induction logs) (auto split: LogType.splits sum.splits prod.splits)

lemma ApplyBatch_Return:
  assumes "ApplyBatch env f logs = Return (f', resp)" and "logs \<noteq> []"
  shows "\<exists>cs lc b' cb' es. decodeLogs env logs = Inr (cs, lc)
     \<and> applyCommands env logs (latestIndex f) 0 (dataBucket (dbFile f), configBucket (dbFile f)) cs = (None, (b', cb'), es)
     \<and> length es = length logs
     \<and> resp = map (\<lambda>i. \<lparr>Success = True, EntrySlice = es ! i\<rparr>) [0..<length logs]
     \<and> dataBucket (dbFile f') = b'"
proof -
  from assms obtain cs lc where d: "decodeLogs env logs = Inr (cs, lc)"
    by (auto simp: ApplyBatch_def split: sum.splits)
  obtain r b' cb' es where a: "applyCommands env logs (latestIndex f) 0 (dataBucket (dbFile f), configBucket (dbFile f)) cs = (r, (b', cb'), es)"
    by (metis prod.exhaust)
  have r: "r = None" using assms d a by (auto simp: ApplyBatch_def split: sum.splits if_splits option.splits)
  have len: "length es = length logs"
    using applyCommands_slices [OF a] r decodeLogs_length [OF d] by simp
  have "resp = map (\<lambda>i. \<lparr>Success = True, EntrySlice = es ! i\<rparr>) [0..<length logs] \<and> dataBucket (dbFile f') = b'"
    using assms d a r by (auto simp: ApplyBatch_def split: sum.splits if_splits)
  then show ?thesis using d a r len by auto
qed

lemma ApplyBatch_decode_panic:
  "decodeLogs env logs = Inl m \<Longrightarrow> \<exists>m'. ApplyBatch env f logs = Panic m'"
  by (cases logs) (auto simp: ApplyBatch_def)

lemma ApplyBatch_loop_panic:
  assumes "decodeLogs env logs = Inr (cs, lc)"
    and "applyCommands env logs (latestIndex f) 0 (dataBucket (dbFile f), configBucket (dbFile f)) cs = (Some e, s, es)"
  shows "\<exists>m. ApplyBatch env f logs = Panic m"
proof (cases "logs = []")
  case True
  then show ?thesis using assms by (simp add: applyCommands_Nil)
next
  case False
  then show ?thesis using assms by (auto simp: ApplyBatch_def split: sum.splits)
qed

lemma tx_rejected_core:
  assumes dec: "decodeLogs env logs = Inr (pre @ CmdLogData ops # post, lc)"
    and pre: "applyCommands env logs (latestIndex f) 0 (dataBucket (dbFile f), configBucket (dbFile f)) pre = (None, (b, cb), es0)"
    and tx: "length ops \<noteq> 0" "OpType (ops ! 0) = beginTxOp"
    and v: "verifyLoop env ops b (setInTx (applyState (latestIndex f) (length pre) (Log.Index (logs ! length pre)))) 0 ops = (Some e, ts)"
    and cf: "is_TxCommitFailure e"
  shows "applyBatchTxOps env b (applyState (latestIndex f) (length pre) (Log.Index (logs ! length pre))) ops = (Some e, b, ts)"
    and "applyCommands env logs (latestIndex f) 0 (dataBucket (dbFile f), configBucket (dbFile f)) (pre @ CmdLogData ops # post)
           = (case applyCommands env logs (latestIndex f) (Suc (length pre)) (b, cb) post of
                (r, s, es) \<Rightarrow> (r, s, es0 @ [txErrorEntry e] # es))"
    and "\<forall>f' resp. ApplyBatch env f logs = Return (f', resp) \<longrightarrow> EntrySlice (resp ! length pre) = [txErrorEntry e]"
proof -
  let ?s0 = "(dataBucket (dbFile f), configBucket (dbFile f))"
  show "applyBatchTxOps env b (applyState (latestIndex f) (length pre) (Log.Index (logs ! length pre))) ops = (Some e, b, ts)"
    by (rule applyBatchTxOps_reject(1) [OF v])
  have step: "applyCommands env logs (latestIndex f) (length pre) (b, cb) (CmdLogData ops # post) =
     (case applyCommands env logs (latestIndex f) (Suc (length pre)) (b, cb) post of
        (r, s, es) \<Rightarrow> (r, s, [txErrorEntry e] # es))"
    by (rule applyCommands_tx_reject [OF tx v cf])
  obtain r s es where post: "applyCommands env logs (latestIndex f) (Suc (length pre)) (b, cb) post = (r, s, es)"
    by (metis prod.exhaust)
  show loop: "applyCommands env logs (latestIndex f) 0 ?s0 (pre @ CmdLogData ops # post)
           = (case applyCommands env logs (latestIndex f) (Suc (length pre)) (b, cb) post of
                (r, s, es) \<Rightarrow> (r, s, es0 @ [txErrorEntry e] # es))"
    using applyCommands_append [of env logs "latestIndex f" 0 ?s0 pre "CmdLogData ops # post"] pre step post
    by simp
  have len0: "length es0 = length pre" using applyCommands_slices [OF pre] by simp
  show "\<forall>f' resp. ApplyBatch env f logs = Return (f', resp) \<longrightarrow> EntrySlice (resp ! length pre) = [txErrorEntry e]"
  proof (intro allI impI)
    fix f' resp assume ret: "ApplyBatch env f logs = Return (f', resp)"
    have ne: "logs \<noteq> []" using dec by auto
    from ApplyBatch_Return [OF ret ne] dec obtain b' cb' es' where
      a: "applyCommands env logs (latestIndex f) 0 ?s0 (pre @ CmdLogData ops # post) = (None, (b', cb'), es')"
      and r: "resp = map (\<lambda>i. \<lparr>Success = True, EntrySlice = es' ! i\<rparr>) [0..<length logs]" by auto
    have "es' = es0 @ [txErrorEntry e] # es" using a loop post by simp
    then have "es' ! length pre = [txErrorEntry e]" using len0 by (simp add: nth_append)
    moreover have "length pre < length logs" using decodeLogs_length [OF dec] by simp
    ultimately show "EntrySlice (resp ! length pre) = [txErrorEntry e]" using r by simp
  qed
qed

lemma applyCommands_entry:
  assumes "applyEntry env b (applyState latest ci (Log.Index (logs ! ci))) ops = (r, b', ts)"
  shows "applyCommands env logs latest ci (b, cb) (CmdLogData ops # cs) =
     (case r of
        None \<Rightarrow> (case applyCommands env logs latest (Suc ci) (b', cb) cs of (r', s, es) \<Rightarrow> (r', s, [] # es))
      | Some e \<Rightarrow>
          if getInTx ts \<and> is_TxCommitFailure e
          then (case applyCommands env logs latest (Suc ci) (b', cb) cs of (r', s, es) \<Rightarrow> (r', s, [txErrorEntry e] # es))
          else (Some e, (b', cb), [[]]))"
proof -
  have a: "(if length ops = 0 \<or> OpType (ops ! 0) \<noteq> beginTxOp
            then applyBatchNonTxOps env b (applyState latest ci (Log.Index (logs ! ci))) ops
            else applyBatchTxOps env b (applyState latest ci (Log.Index (logs ! ci))) ops) = (r, b', ts)"
    using assms by (simp add: applyEntry_def)
  show ?thesis
    unfolding applyCommands.simps a by (cases r) simp_all
qed

lemma entry_continues:
  assumes dec: "decodeLogs env logs = Inr (pre @ c # post, lc)"
    and pre: "applyCommands env logs (latestIndex f) 0 (dataBucket (dbFile f), configBucket (dbFile f)) pre = (None, s1, es0)"
    and step: "applyCommands env logs (latestIndex f) (length pre) s1 (c # post) =
        (case applyCommands env logs (latestIndex f) (Suc (length pre)) s2 post of (r, s, es) \<Rightarrow> (r, s, sl # es))"
  shows "applyCommands env logs (latestIndex f) 0 (dataBucket (dbFile f), configBucket (dbFile f)) (pre @ c # post)
           = (case applyCommands env logs (latestIndex f) (Suc (length pre)) s2 post of
                (r, s, es) \<Rightarrow> (r, s, es0 @ sl # es))"
    and "\<forall>f' resp. ApplyBatch env f logs = Return (f', resp) \<longrightarrow> EntrySlice (resp ! length pre) = sl"
proof -
  let ?s0 = "(dataBucket (dbFile f), configBucket (dbFile f))"
  obtain r s es where post: "applyCommands env logs (latestIndex f) (Suc (length pre)) s2 post = (r, s, es)"
    by (metis prod.exhaust)
  show loop: "applyCommands env logs (latestIndex f) 0 ?s0 (pre @ c # post)
           = (case applyCommands env logs (latestIndex f) (Suc (length pre)) s2 post of
                (r, s, es) \<Rightarrow> (r, s, es0 @ sl # es))"
    using applyCommands_append [of env logs "latestIndex f" 0 ?s0 pre "c # post"] pre step post
    by simp
  have len0: "length es0 = length pre" using applyCommands_slices [OF pre] by simp
  show "\<forall>f' resp. ApplyBatch env f logs = Return (f', resp) \<longrightarrow> EntrySlice (resp ! length pre) = sl"
  proof (intro allI impI)
    fix f' resp assume ret: "ApplyBatch env f logs = Return (f', resp)"
    have ne: "logs \<noteq> []" using dec by auto
    from ApplyBatch_Return [OF ret ne] dec obtain b' cb' es' where
      a: "applyCommands env logs (latestIndex f) 0 ?s0 (pre @ c # post) = (None, (b', cb'), es')"
      and r: "resp = map (\<lambda>i. \<lparr>Success = True, EntrySlice = es' ! i\<rparr>) [0..<length logs]" by auto
    have "es' = es0 @ sl # es" using a loop post by simp
    then have "es' ! length pre = sl" using len0 by (simp add: nth_append)
    moreover have "length pre < length logs" using decodeLogs_length [OF dec] by simp
    ultimately show "EntrySlice (resp ! length pre) = sl" using r by simp
  qed
qed

lemma entry_stops:
  assumes dec: "decodeLogs env logs = Inr (pre @ c # post, lc)"
    and pre: "applyCommands env logs (latestIndex f) 0 (dataBucket (dbFile f), configBucket (dbFile f)) pre = (None, s1, es0)"
    and stop: "applyCommands env logs (latestIndex f) (length pre) s1 (c # post) = (Some e, s2, es)"
  shows "\<exists>m. ApplyBatch env f logs = Panic m"
proof -
  let ?s0 = "(dataBucket (dbFile f), configBucket (dbFile f))"
  have "applyCommands env logs (latestIndex f) 0 ?s0 (pre @ c # post) = (Some e, s2, es0 @ es)"
    using applyCommands_append [of env logs "latestIndex f" 0 ?s0 pre "c # post"] pre stop by simp
  then show ?thesis using ApplyBatch_loop_panic dec by blast
qed

lemma ApplyBatch_entry:
  assumes dec: "decodeLogs env logs = Inr (pre @ CmdLogData ops # post, lc)"
    and pre: "applyCommands env logs (latestIndex f) 0 (dataBucket (dbFile f), configBucket (dbFile f)) pre = (None, (b, cb), es0)"
    and ent: "applyEntry env b (applyState (latestIndex f) (length pre) (Log.Index (logs ! length pre))) ops = (r, b', ts)"
  shows "case r of
           None \<Rightarrow>
             applyCommands env logs (latestIndex f) 0 (dataBucket (dbFile f), configBucket (dbFile f)) (pre @ CmdLogData ops # post)
               = (case applyCommands env logs (latestIndex f) (Suc (length pre)) (b', cb) post of
                    (r', s, es) \<Rightarrow> (r', s, es0 @ [] # es))
             \<and> (\<forall>f' resp. ApplyBatch env f logs = Return (f', resp) \<longrightarrow> EntrySlice (resp ! length pre) = [])
         | Some e \<Rightarrow>
             if getInTx ts \<and> is_TxCommitFailure e
             then applyCommands env logs (latestIndex f) 0 (dataBucket (dbFile f), configBucket (dbFile f)) (pre @ CmdLogData ops # post)
                    = (case applyCommands env logs (latestIndex f) (Suc (length pre)) (b', cb) post of
                         (r', s, es) \<Rightarrow> (r', s, es0 @ [txErrorEntry e] # es))
                  \<and> (\<forall>f' resp. ApplyBatch env f logs = Return (f', resp) \<longrightarrow> EntrySlice (resp ! length pre) = [txErrorEntry e])
             else (\<exists>m. ApplyBatch env f logs = Panic m)"
proof (cases r)
  case None
  have "applyCommands env logs (latestIndex f) (length pre) (b, cb) (CmdLogData ops # post) =
      (case applyCommands env logs (latestIndex f) (Suc (length pre)) (b', cb) post of (r', s, es) \<Rightarrow> (r', s, [] # es))"
    using applyCommands_entry [OF ent, of cb post] None by simp
  from entry_continues [OF dec pre this] show ?thesis using None by simp
next
  case (Some e)
  show ?thesis
  proof (cases "getInTx ts \<and> is_TxCommitFailure e")
    case True
    have "applyCommands env logs (latestIndex f) (length pre) (b, cb) (CmdLogData ops # post) =
        (case applyCommands env logs (latestIndex f) (Suc (length pre)) (b', cb) post of (r', s, es) \<Rightarrow> (r', s, [txErrorEntry e] # es))"
      using applyCommands_entry [OF ent, of cb post] Some True by simp
    from entry_continues [OF dec pre this] show ?thesis using Some True by simp
  next
    case False
    have "applyCommands env logs (latestIndex f) (length pre) (b, cb) (CmdLogData ops # post) = (Some e, (b', cb), [[]])"
      using applyCommands_entry [OF ent, of cb post] Some False by simp
    from entry_stops [OF dec pre this] show ?thesis using Some False by auto
  qed
qed

lemma ApplyBatch_finish:
  assumes "logs \<noteq> []" and "decodeLogs env logs = Inr (cs, lc)" and "dbOpen f"
    and "(if latestIndex f < Log.Index (last logs)
          then marshalIndexValue env (Term (last logs)) (Log.Index (last logs)) else Inr []) = Inr logIndex"
    and "applyCommands env logs (latestIndex f) 0 (dataBucket (dbFile f), configBucket (dbFile f)) cs = (None, (b', cb'), es)"
  shows "case (if length logIndex > 0 then bucketPut env cb' latestIndexKey logIndex else Inr cb') of
           Inl e \<Rightarrow> (\<exists>m. ApplyBatch env f logs = Panic m)
         | Inr cb'' \<Rightarrow> (\<exists>f' resp. ApplyBatch env f logs = Return (f', resp)
                          \<and> dbFile f' = \<lparr>dataBucket = b', configBucket = cb''\<rparr>)"
proof -
  have len: "\<not> length es < length logs"
    using applyCommands_slices [OF assms(5)] decodeLogs_length [OF assms(2)] by simp
  have nz: "length logs \<noteq> 0" using assms(1) by simp
  show ?thesis
  proof (cases "if length logIndex > 0 then bucketPut env cb' latestIndexKey logIndex else Inr cb'")
    case (Inl e)
    have "ApplyBatch env f logs = Panic ''failed to store data''"
      unfolding ApplyBatch_def using nz assms(2,3,4,5) Inl by simp
    then show ?thesis using Inl by simp
  next
    case (Inr cb'')
    have "\<exists>f' resp. ApplyBatch env f logs = Return (f', resp) \<and> dbFile f' = \<lparr>dataBucket = b', configBucket = cb''\<rparr>"
      unfolding ApplyBatch_def using nz assms(2,3,4,5) Inr len by simp
    then show ?thesis using Inr by simp
  qed
qed

text \<open>
  Claim C1. A transactional entry (first operation \<^verbatim>\<open>begin_tx\<close>) at any position of a
  batch, reached after the entries before it were applied, whose \<^verbatim>\<open>begin_tx\<close> value
  parses and in which a \<^verbatim>\<open>verify_read\<close> or \<^verbatim>\<open>verify_list\<close> operation fails against the
  bucket: the transaction returns a commit failure and leaves the data bucket as it was
  (no put or delete of it is applied), the loop goes on with the remaining entries on that
  unchanged bucket, and the entry's slice of the apply response is the sentinel entry,
  whose key is \<^verbatim>\<open>fsmEntryTxErrorKey\<close> and whose value is the error's text. The
  verification helpers are parameters; as the specification says, the verifications of
  this entry that fail do so with a commit failure (\<open>verify_failures\<close>).
\<close>

theorem tx_verify_failure_rejected:
  assumes "decodeLogs env logs = Inr (pre @ CmdLogData ops # post, lc)"
    and "applyCommands env logs (latestIndex f) 0 (dataBucket (dbFile f), configBucket (dbFile f)) pre = (None, (b, cb), es0)"
    and "length ops \<noteq> 0" and "OpType (ops ! 0) = beginTxOp"
    and "parseBeginTxOpValue env (LogOperation.Value (ops ! 0)) = Inr s"
    and "\<exists>op\<in>set ops. verifyOp env (setStartIndex (setInTx (applyState (latestIndex f) (length pre) (Log.Index (logs ! length pre)))) s) b op \<noteq> None"
    and "verify_failures env (setStartIndex (setInTx (applyState (latestIndex f) (length pre) (Log.Index (logs ! length pre)))) s) b ops"
  shows "\<exists>e ts. is_TxCommitFailure e
       \<and> applyBatchTxOps env b (applyState (latestIndex f) (length pre) (Log.Index (logs ! length pre))) ops = (Some e, b, ts)
       \<and> applyCommands env logs (latestIndex f) 0 (dataBucket (dbFile f), configBucket (dbFile f)) (pre @ CmdLogData ops # post)
           = (case applyCommands env logs (latestIndex f) (Suc (length pre)) (b, cb) post of
                (r, s, es) \<Rightarrow> (r, s, es0 @ [txErrorEntry e] # es))
       \<and> (\<forall>f' resp. ApplyBatch env f logs = Return (f', resp) \<longrightarrow> EntrySlice (resp ! length pre) = [txErrorEntry e])
       \<and> FSMEntry.Key (txErrorEntry e) = fsmEntryTxErrorKey \<and> FSMEntry.Value (txErrorEntry e) = Error e"
proof -
  let ?ts0 = "applyState (latestIndex f) (length pre) (Log.Index (logs ! length pre))"
  have ne: "ops \<noteq> []" using assms(3) by simp
  obtain r ts where v: "verifyLoop env ops b (setInTx ?ts0) 0 ops = (r, ts)" by (metis prod.exhaust)
  have "r \<noteq> None"
  proof
    assume "r = None"
    then have "\<forall>op\<in>set ops. verifyOp env (setStartIndex (setInTx ?ts0) s) b op = None"
      using verifyLoop_pass [OF ne assms(4,5), of b "setInTx ?ts0" ts] v by simp
    then show False using assms(6) by auto
  qed
  then obtain e where e: "r = Some e" by blast
  have cf: "is_TxCommitFailure e"
    using verifyLoop_head_err [OF ne assms(4) v [unfolded e]] assms(5,7)
    by (auto simp: shape_error_commit_failure verify_failures_def split: option.splits)
  note core = tx_rejected_core [OF assms(1,2,3,4) v [unfolded e] cf]
  show ?thesis using cf core by (auto simp: txErrorEntry_def)
qed

text \<open>
  Claim C5, as amended. A \<^verbatim>\<open>LogData\<close> whose first operation is \<^verbatim>\<open>begin_tx\<close> and whose
  shape is violated (the last operation is not \<^verbatim>\<open>commit_tx\<close>, or a \<^verbatim>\<open>begin_tx\<close> or
  \<^verbatim>\<open>commit_tx\<close> stands at an interior position) is always rejected with an error by
  \<^verbatim>\<open>applyBatchTxOps\<close>, and the data bucket is unchanged: no put or delete of it is
  applied. When the last operation is not \<^verbatim>\<open>commit_tx\<close>, the error is the shape error, a
  commit failure, and \<^verbatim>\<open>ApplyBatch\<close> answers the entry with the sentinel and goes on. An
  interior \<^verbatim>\<open>begin_tx\<close> or \<^verbatim>\<open>commit_tx\<close> is found only when the verification loop
  reaches it: when the \<^verbatim>\<open>begin_tx\<close> value parses, the rejection is a commit failure
  answered with the sentinel provided the verifications that fail do so with a commit
  failure, and it is the shape error itself when no verification fails; when the
  \<^verbatim>\<open>begin_tx\<close> value does not parse, the parser's error is returned as it is, and unless
  it is a commit failure the loop of \<^verbatim>\<open>ApplyBatch\<close> ends with that error.
\<close>

theorem tx_shape_violation_rejected:
  assumes "length ops \<noteq> 0" and "OpType (ops ! 0) = beginTxOp"
    and "shape_violated ops"
  shows "(\<exists>e ts. applyBatchTxOps env b (applyState latest ci (Log.Index (logs ! ci))) ops = (Some e, b, ts))
       \<and> (OpType (last ops) \<noteq> commitTxOp \<longrightarrow>
            applyBatchTxOps env b (applyState latest ci (Log.Index (logs ! ci))) ops
              = (Some (txShapeError env), b, setInTx (applyState latest ci (Log.Index (logs ! ci))))
          \<and> is_TxCommitFailure (txShapeError env)
          \<and> applyCommands env logs latest ci (b, cb) (CmdLogData ops # cs)
              = (case applyCommands env logs latest (Suc ci) (b, cb) cs of
                   (r, s, es) \<Rightarrow> (r, s, [txErrorEntry (txShapeError env)] # es)))
       \<and> (\<forall>s. parseBeginTxOpValue env (LogOperation.Value (ops ! 0)) = Inr s
              \<and> verify_failures env (setStartIndex (setInTx (applyState latest ci (Log.Index (logs ! ci)))) s) b ops \<longrightarrow>
            (\<exists>e ts. is_TxCommitFailure e
               \<and> applyBatchTxOps env b (applyState latest ci (Log.Index (logs ! ci))) ops = (Some e, b, ts)
               \<and> applyCommands env logs latest ci (b, cb) (CmdLogData ops # cs)
                   = (case applyCommands env logs latest (Suc ci) (b, cb) cs of
                        (r, s, es) \<Rightarrow> (r, s, [txErrorEntry e] # es))))
       \<and> (\<forall>s. parseBeginTxOpValue env (LogOperation.Value (ops ! 0)) = Inr s
              \<and> (\<forall>op\<in>set ops. verifyOp env (setStartIndex (setInTx (applyState latest ci (Log.Index (logs ! ci)))) s) b op = None) \<longrightarrow>
            (\<exists>ts. applyBatchTxOps env b (applyState latest ci (Log.Index (logs ! ci))) ops = (Some (txShapeError env), b, ts)))
       \<and> (\<forall>e. OpType (last ops) = commitTxOp \<and> parseBeginTxOpValue env (LogOperation.Value (ops ! 0)) = Inl e \<longrightarrow>
            applyBatchTxOps env b (applyState latest ci (Log.Index (logs ! ci))) ops
              = (Some e, b, setInTx (applyState latest ci (Log.Index (logs ! ci))))
          \<and> (\<not> is_TxCommitFailure e \<longrightarrow>
               applyCommands env logs latest ci (b, cb) (CmdLogData ops # cs) = (Some e, (b, cb), [[]])))"
proof -
  let ?ts0 = "applyState latest ci (Log.Index (logs ! ci))"
  have ne: "ops \<noteq> []" using assms(1) by simp
  obtain r ts where v: "verifyLoop env ops b (setInTx ?ts0) 0 ops = (r, ts)" by (metis prod.exhaust)
  have "fst (verifyLoop env ops b (setInTx ?ts0) 0 ops) \<noteq> None"
    using assms(1,2,3) by (intro verifyLoop_shape) auto
  then obtain e where e: "r = Some e" using v by auto
  note v' = v [unfolded e]
  have rej: "applyBatchTxOps env b ?ts0 ops = (Some e, b, ts)"
    by (rule applyBatchTxOps_reject(1) [OF v'])
  have intx: "getInTx ts" by (rule applyBatchTxOps_reject(2) [OF v'])
  note head = verifyLoop_head_err [OF ne assms(2) v']
  have cont: "applyCommands env logs latest ci (b, cb) (CmdLogData ops # cs)
           = (case applyCommands env logs latest (Suc ci) (b, cb) cs of
                (r, s, es) \<Rightarrow> (r, s, [txErrorEntry e] # es))" if "is_TxCommitFailure e"
    by (rule applyCommands_tx_reject [OF assms(1,2) v' that])
  have c1: "\<exists>e ts. applyBatchTxOps env b ?ts0 ops = (Some e, b, ts)" using rej by blast
  have c2: "applyBatchTxOps env b ?ts0 ops = (Some (txShapeError env), b, setInTx ?ts0)
          \<and> is_TxCommitFailure (txShapeError env)
          \<and> applyCommands env logs latest ci (b, cb) (CmdLogData ops # cs)
              = (case applyCommands env logs latest (Suc ci) (b, cb) cs of
                   (r, s, es) \<Rightarrow> (r, s, [txErrorEntry (txShapeError env)] # es))"
    if "OpType (last ops) \<noteq> commitTxOp"
  proof -
    from head that have "e = txShapeError env" "ts = setInTx ?ts0" by auto
    then show ?thesis using rej cont shape_error_commit_failure by simp
  qed
  have c3: "\<exists>e ts. is_TxCommitFailure e
               \<and> applyBatchTxOps env b ?ts0 ops = (Some e, b, ts)
               \<and> applyCommands env logs latest ci (b, cb) (CmdLogData ops # cs)
                   = (case applyCommands env logs latest (Suc ci) (b, cb) cs of
                        (r, s, es) \<Rightarrow> (r, s, [txErrorEntry e] # es))"
    if "parseBeginTxOpValue env (LogOperation.Value (ops ! 0)) = Inr s
        \<and> verify_failures env (setStartIndex (setInTx ?ts0) s) b ops" for s
  proof -
    have "is_TxCommitFailure e"
      using head that
      by (auto simp: shape_error_commit_failure verify_failures_def split: option.splits)
    then show ?thesis using rej cont by blast
  qed
  have c4: "\<exists>ts. applyBatchTxOps env b ?ts0 ops = (Some (txShapeError env), b, ts)"
    if "parseBeginTxOpValue env (LogOperation.Value (ops ! 0)) = Inr s
        \<and> (\<forall>op\<in>set ops. verifyOp env (setStartIndex (setInTx ?ts0) s) b op = None)" for s
  proof -
    have "e = txShapeError env" using head that by auto
    then show ?thesis using rej by blast
  qed
  have c5: "applyBatchTxOps env b ?ts0 ops = (Some e', b, setInTx ?ts0)
          \<and> (\<not> is_TxCommitFailure e' \<longrightarrow>
               applyCommands env logs latest ci (b, cb) (CmdLogData ops # cs) = (Some e', (b, cb), [[]]))"
    if "OpType (last ops) = commitTxOp \<and> parseBeginTxOpValue env (LogOperation.Value (ops ! 0)) = Inl e'" for e'
  proof -
    from head that have ee: "e = e'" "ts = setInTx ?ts0" by auto
    have "applyCommands env logs latest ci (b, cb) (CmdLogData ops # cs) = (Some e', (b, cb), [[]])"
      if "\<not> is_TxCommitFailure e'"
      using assms(1,2) rej ee that by simp
    then show ?thesis using rej ee by simp
  qed
  show ?thesis using c1 c2 c3 c4 c5 by blast
qed

text \<open>
  Claim C7. A batch with a log whose type is neither \<^verbatim>\<open>LogCommand\<close> nor
  \<^verbatim>\<open>LogConfiguration\<close>, or with a command whose data cannot be unmarshalled, ends in a
  panic; so does a batch in which the non-transactional application of an entry, reached
  after the entries before it were applied, returns the error of a failed put or delete.
  No error is returned to the caller in any of these cases.
\<close>

theorem apply_failures_panic:
  "((\<exists>l\<in>set logs. Type l \<noteq> LogCommand \<and> Type l \<noteq> LogConfiguration) \<longrightarrow> (\<exists>m. ApplyBatch env f logs = Panic m))
   \<and> ((\<exists>l\<in>set logs. Type l = LogCommand \<and> (\<exists>e. unmarshalLogData env (Data l) = Inl e)) \<longrightarrow> (\<exists>m. ApplyBatch env f logs = Panic m))
   \<and> (\<forall>pre ops post lc b cb es0 e b' ts.
         decodeLogs env logs = Inr (pre @ CmdLogData ops # post, lc)
         \<and> (length ops = 0 \<or> OpType (ops ! 0) \<noteq> beginTxOp)
         \<and> applyCommands env logs (latestIndex f) 0 (dataBucket (dbFile f), configBucket (dbFile f)) pre = (None, (b, cb), es0)
         \<and> applyBatchNonTxOps env b (applyState (latestIndex f) (length pre) (Log.Index (logs ! length pre))) ops = (Some e, b', ts)
       \<longrightarrow> (\<exists>m. ApplyBatch env f logs = Panic m))"
proof (intro conjI impI allI)
  assume "\<exists>l\<in>set logs. Type l \<noteq> LogCommand \<and> Type l \<noteq> LogConfiguration"
  then show "\<exists>m. ApplyBatch env f logs = Panic m"
    using decodeLogs_bad_type ApplyBatch_decode_panic by blast
next
  assume "\<exists>l\<in>set logs. Type l = LogCommand \<and> (\<exists>e. unmarshalLogData env (Data l) = Inl e)"
  then show "\<exists>m. ApplyBatch env f logs = Panic m"
    using decodeLogs_bad_data ApplyBatch_decode_panic by blast
next
  fix pre :: "command list" and ops post lc b cb es0 e b' ts
  let ?s0 = "(dataBucket (dbFile f), configBucket (dbFile f))"
  let ?ts0 = "applyState (latestIndex f) (length pre) (Log.Index (logs ! length pre))"
  assume h: "decodeLogs env logs = Inr (pre @ CmdLogData ops # post, lc)
         \<and> (length ops = 0 \<or> OpType (ops ! 0) \<noteq> beginTxOp)
         \<and> applyCommands env logs (latestIndex f) 0 ?s0 pre = (None, (b, cb), es0)
         \<and> applyBatchNonTxOps env b ?ts0 ops = (Some e, b', ts)"
  have "inTx ts = inTx ?ts0" using nonTx_inTx h by blast
  then have notx: "\<not> getInTx ts" by (simp add: getInTx_def applyState_def)
  have "applyCommands env logs (latestIndex f) (length pre) (b, cb) (CmdLogData ops # post) = (Some e, (b', cb), [[]])"
    using h notx by auto
  then have "applyCommands env logs (latestIndex f) 0 ?s0 (pre @ CmdLogData ops # post) = (Some e, (b', cb), es0 @ [[]])"
    using applyCommands_append [of env logs "latestIndex f" 0 ?s0 pre "CmdLogData ops # post"] h by simp
  then show "\<exists>m. ApplyBatch env f logs = Panic m"
    using ApplyBatch_loop_panic h by blast
qed

text \<open>
  Claim C10. Whenever \<^verbatim>\<open>ApplyBatch\<close> returns, it returns one response per input log,
  each with \<^verbatim>\<open>Success\<close> true, whatever the logs contain; the entry slice of a response
  is empty or holds the single sentinel entry of a commit failure. Failures are reported in
  no other way. For a \<^verbatim>\<open>LogData\<close> entry at any position, reached after the entries
  before it were applied: when its application returns no error, the loop goes on from the
  bucket it leaves and the entry's slice is empty; when a transaction returns a commit
  failure, the loop goes on and the entry's slice is the sentinel; every other error makes
  \<^verbatim>\<open>ApplyBatch\<close> panic. So does every error that ends the loop, and a failure to store
  the latest index after it. A batch that decodes, whose latest index can be marshalled,
  on an open database, whose loop ends without error and whose latest index is stored,
  does return, with the buckets the loop and that store produced.
\<close>

theorem apply_responses_all_success:
  "(\<forall>f' resp. ApplyBatch env f logs = Return (f', resp) \<longrightarrow>
        length resp = length logs
      \<and> (\<forall>r\<in>set resp. Success r
            \<and> (EntrySlice r = [] \<or> (\<exists>e. is_TxCommitFailure e \<and> EntrySlice r = [txErrorEntry e]))))
   \<and> (\<forall>pre ops post lc b cb es0 r b' ts.
        decodeLogs env logs = Inr (pre @ CmdLogData ops # post, lc)
        \<and> applyCommands env logs (latestIndex f) 0 (dataBucket (dbFile f), configBucket (dbFile f)) pre = (None, (b, cb), es0)
        \<and> applyEntry env b (applyState (latestIndex f) (length pre) (Log.Index (logs ! length pre))) ops = (r, b', ts)
      \<longrightarrow> (case r of
             None \<Rightarrow>
               applyCommands env logs (latestIndex f) 0 (dataBucket (dbFile f), configBucket (dbFile f)) (pre @ CmdLogData ops # post)
                 = (case applyCommands env logs (latestIndex f) (Suc (length pre)) (b', cb) post of
                      (r', s, es) \<Rightarrow> (r', s, es0 @ [] # es))
               \<and> (\<forall>f' resp. ApplyBatch env f logs = Return (f', resp) \<longrightarrow> EntrySlice (resp ! length pre) = [])
           | Some e \<Rightarrow>
               if getInTx ts \<and> is_TxCommitFailure e
               then applyCommands env logs (latestIndex f) 0 (dataBucket (dbFile f), configBucket (dbFile f)) (pre @ CmdLogData ops # post)
                      = (case applyCommands env logs (latestIndex f) (Suc (length pre)) (b', cb) post of
                           (r', s, es) \<Rightarrow> (r', s, es0 @ [txErrorEntry e] # es))
                    \<and> (\<forall>f' resp. ApplyBatch env f logs = Return (f', resp) \<longrightarrow> EntrySlice (resp ! length pre) = [txErrorEntry e])
               else (\<exists>m. ApplyBatch env f logs = Panic m)))
   \<and> (\<forall>cs lc e s es.
        decodeLogs env logs = Inr (cs, lc)
        \<and> applyCommands env logs (latestIndex f) 0 (dataBucket (dbFile f), configBucket (dbFile f)) cs = (Some e, s, es)
      \<longrightarrow> (\<exists>m. ApplyBatch env f logs = Panic m))
   \<and> (\<forall>cs lc b' cb' es logIndex.
        logs \<noteq> [] \<and> decodeLogs env logs = Inr (cs, lc) \<and> dbOpen f
        \<and> (if latestIndex f < Log.Index (last logs)
            then marshalIndexValue env (Term (last logs)) (Log.Index (last logs)) else Inr []) = Inr logIndex
        \<and> applyCommands env logs (latestIndex f) 0 (dataBucket (dbFile f), configBucket (dbFile f)) cs = (None, (b', cb'), es)
      \<longrightarrow> (case (if length logIndex > 0 then bucketPut env cb' latestIndexKey logIndex else Inr cb') of
             Inl e \<Rightarrow> (\<exists>m. ApplyBatch env f logs = Panic m)
           | Inr cb'' \<Rightarrow> (\<exists>f' resp. ApplyBatch env f logs = Return (f', resp)
                            \<and> dbFile f' = \<lparr>dataBucket = b', configBucket = cb''\<rparr>)))"
proof (intro conjI allI impI)
  fix f' resp assume ret: "ApplyBatch env f logs = Return (f', resp)"
  show "length resp = length logs"
  proof (cases "logs = []")
    case True
    then show ?thesis using ret by (simp add: ApplyBatch_def)
  next
    case False
    from ApplyBatch_Return [OF ret False] show ?thesis by auto
  qed
  show "\<forall>r\<in>set resp. Success r
            \<and> (EntrySlice r = [] \<or> (\<exists>e. is_TxCommitFailure e \<and> EntrySlice r = [txErrorEntry e]))"
  proof (cases "logs = []")
    case True
    then show ?thesis using ret by (simp add: ApplyBatch_def)
  next
    case False
    from ApplyBatch_Return [OF ret False] obtain cs lc b' cb' es where
      a: "applyCommands env logs (latestIndex f) 0 (dataBucket (dbFile f), configBucket (dbFile f)) cs = (None, (b', cb'), es)"
      and len: "length es = length logs"
      and r: "resp = map (\<lambda>i. \<lparr>Success = True, EntrySlice = es ! i\<rparr>) [0..<length logs]" by auto
    have ok: "\<forall>x\<in>set es. slice_ok x" using applyCommands_slices [OF a] by simp
    have "slice_ok (es ! i)" if "i < length logs" for i using ok len that by simp
    then show ?thesis using r by (auto simp: slice_ok_def)
  qed
next
  fix pre :: "command list" and ops post lc b cb es0 r b' ts
  assume h: "decodeLogs env logs = Inr (pre @ CmdLogData ops # post, lc)
        \<and> applyCommands env logs (latestIndex f) 0 (dataBucket (dbFile f), configBucket (dbFile f)) pre = (None, (b, cb), es0)
        \<and> applyEntry env b (applyState (latestIndex f) (length pre) (Log.Index (logs ! length pre))) ops = (r, b', ts)"
  then have dec: "decodeLogs env logs = Inr (pre @ CmdLogData ops # post, lc)"
    and pre: "applyCommands env logs (latestIndex f) 0 (dataBucket (dbFile f), configBucket (dbFile f)) pre = (None, (b, cb), es0)"
    and ent: "applyEntry env b (applyState (latestIndex f) (length pre) (Log.Index (logs ! length pre))) ops = (r, b', ts)"
    by simp_all
  show "case r of
             None \<Rightarrow>
               applyCommands env logs (latestIndex f) 0 (dataBucket (dbFile f), configBucket (dbFile f)) (pre @ CmdLogData ops # post)
                 = (case applyCommands env logs (latestIndex f) (Suc (length pre)) (b', cb) post of
                      (r', s, es) \<Rightarrow> (r', s, es0 @ [] # es))
               \<and> (\<forall>f' resp. ApplyBatch env f logs = Return (f', resp) \<longrightarrow> EntrySlice (resp ! length pre) = [])
           | Some e \<Rightarrow>
               if getInTx ts \<and> is_TxCommitFailure e
               then applyCommands env logs (latestIndex f) 0 (dataBucket (dbFile f), configBucket (dbFile f)) (pre @ CmdLogData ops # post)
                      = (case applyCommands env logs (latestIndex f) (Suc (length pre)) (b', cb) post of
                           (r', s, es) \<Rightarrow> (r', s, es0 @ [txErrorEntry e] # es))
                    \<and> (\<forall>f' resp. ApplyBatch env f logs = Return (f', resp) \<longrightarrow> EntrySlice (resp ! length pre) = [txErrorEntry e])
               else (\<exists>m. ApplyBatch env f logs = Panic m)"
    by (rule ApplyBatch_entry [OF dec pre ent])
next
  fix cs lc e s es
  assume "decodeLogs env logs = Inr (cs, lc)
        \<and> applyCommands env logs (latestIndex f) 0 (dataBucket (dbFile f), configBucket (dbFile f)) cs = (Some e, s, es)"
  then show "\<exists>m. ApplyBatch env f logs = Panic m"
    using ApplyBatch_loop_panic by blast
next
  fix cs lc b' cb' es logIndex
  assume h: "logs \<noteq> [] \<and> decodeLogs env logs = Inr (cs, lc) \<and> dbOpen f
        \<and> (if latestIndex f < Log.Index (last logs)
            then marshalIndexValue env (Term (last logs)) (Log.Index (last logs)) else Inr []) = Inr logIndex
        \<and> applyCommands env logs (latestIndex f) 0 (dataBucket (dbFile f), configBucket (dbFile f)) cs = (None, (b', cb'), es)"
  then have h1: "logs \<noteq> []" and h2: "decodeLogs env logs = Inr (cs, lc)" and h3: "dbOpen f"
    and h4: "(if latestIndex f < Log.Index (last logs)
            then marshalIndexValue env (Term (last logs)) (Log.Index (last logs)) else Inr []) = Inr logIndex"
    and h5: "applyCommands env logs (latestIndex f) 0 (dataBucket (dbFile f), configBucket (dbFile f)) cs = (None, (b', cb'), es)"
    by simp_all
  show "case (if length logIndex > 0 then bucketPut env cb' latestIndexKey logIndex else Inr cb') of
             Inl e \<Rightarrow> (\<exists>m. ApplyBatch env f logs = Panic m)
           | Inr cb'' \<Rightarrow> (\<exists>f' resp. ApplyBatch env f logs = Return (f', resp)
                            \<and> dbFile f' = \<lparr>dataBucket = b', configBucket = cb''\<rparr>)"
    by (rule ApplyBatch_finish [OF h1 h2 h3 h4 h5])
qed

lemmas demo_defs = mkOp_def txA_def txB_def putC_def putEmptyKey_def getA_def txNested_def txBadBegin_def
  env0_def env1_def fsm0_def mkLog_def logs0_def

lemmas fsm_defs = applyBatchTxOps_def applyState_def setInTx_def getInTx_def setStartIndex_def
  logWrite_def finishTxn_def bucketPut_def bucketDelete_def bucketGet_def txErrorEntry_def
  txShapeError_def latestIndexKey_def latestConfigKey_def

text \<open>
  The hypotheses of C1 hold in the specification's conflict scenario, followed by one more
  entry: the store holds \<^verbatim>\<open>a = 1\<close>; transaction A verifies \<^verbatim>\<open>a = 1\<close> and writes 2,
  transaction B verifies \<^verbatim>\<open>a = 1\<close> and writes 3, entry C puts \<^verbatim>\<open>c\<close>. B is answered
  with the sentinel, and the batch ends with \<^verbatim>\<open>a = 2\<close> and \<^verbatim>\<open>c\<close> stored.
\<close>

theorem tx_verify_failure_rejected_witness:
  "decodeLogs env0 logs0 = Inr ([CmdLogData txA] @ CmdLogData txB # [CmdLogData putC], None)
   \<and> applyCommands env0 logs0 (latestIndex fsm0) 0 (dataBucket (dbFile fsm0), configBucket (dbFile fsm0)) [CmdLogData txA]
        = (None, ([(''a'', ''2'')], []), [[]])
   \<and> length txB \<noteq> 0 \<and> OpType (txB ! 0) = beginTxOp
   \<and> parseBeginTxOpValue env0 (LogOperation.Value (txB ! 0)) = Inr 0
   \<and> verifyOp env0 (setStartIndex (setInTx (applyState 0 1 2)) 0) [(''a'', ''2'')] (txB ! 1) \<noteq> None
   \<and> verify_failures env0 (setStartIndex (setInTx (applyState 0 1 2)) 0) [(''a'', ''2'')] txB
   \<and> (\<exists>e ts. is_TxCommitFailure e
        \<and> applyBatchTxOps env0 [(''a'', ''2'')] (applyState 0 1 2) txB = (Some e, [(''a'', ''2'')], ts)
        \<and> (\<forall>f' resp. ApplyBatch env0 fsm0 logs0 = Return (f', resp) \<longrightarrow> EntrySlice (resp ! 1) = [txErrorEntry e]))
   \<and> (\<exists>f' resp. ApplyBatch env0 fsm0 logs0 = Return (f', resp)
        \<and> dataBucket (dbFile f') = [(''a'', ''2''), (''c'', ''x'')])"
proof -
  have w1: "decodeLogs env0 logs0 = Inr ([CmdLogData txA] @ CmdLogData txB # [CmdLogData putC], None)"
    by (simp add: demo_defs)
  have w2: "applyCommands env0 logs0 (latestIndex fsm0) 0 (dataBucket (dbFile fsm0), configBucket (dbFile fsm0)) [CmdLogData txA]
      = (None, ([(''a'', ''2'')], []), [[]])"
    by (simp add: demo_defs fsm_defs op_defs)
  have w3: "length txB \<noteq> 0" and w4: "OpType (txB ! 0) = beginTxOp"
    by (simp_all add: demo_defs)
  have w5: "parseBeginTxOpValue env0 (LogOperation.Value (txB ! 0)) = Inr 0"
    by (simp add: demo_defs)
  have ix: "applyState (latestIndex fsm0) (length [CmdLogData txA]) (Log.Index (logs0 ! length [CmdLogData txA])) = applyState 0 1 2"
    by (simp add: demo_defs)
  have v: "verifyOp env0 (setStartIndex (setInTx (applyState 0 1 2)) 0) [(''a'', ''2'')] (txB ! 1) \<noteq> None"
    by (simp add: demo_defs fsm_defs op_defs verifyOp_def)
  have "txB ! 1 \<in> set txB" by (simp add: txB_def)
  then have w6: "\<exists>op\<in>set txB. verifyOp env0 (setStartIndex (setInTx (applyState 0 1 2)) 0) [(''a'', ''2'')] op \<noteq> None"
    using v by blast
  have w7: "verify_failures env0 (setStartIndex (setInTx (applyState 0 1 2)) 0) [(''a'', ''2'')] txB"
    by (simp add: verify_failures_def demo_defs fsm_defs op_defs verifyOp_def)
  have w8: "\<exists>f' resp. ApplyBatch env0 fsm0 logs0 = Return (f', resp) \<and> dataBucket (dbFile f') = [(''a'', ''2''), (''c'', ''x'')]"
    by (simp add: ApplyBatch_def demo_defs fsm_defs op_defs)
  from tx_verify_failure_rejected [OF w1 w2 w3 w4 w5 w6 [folded ix] w7 [folded ix]]
  have "\<exists>e ts. is_TxCommitFailure e
        \<and> applyBatchTxOps env0 [(''a'', ''2'')] (applyState 0 1 2) txB = (Some e, [(''a'', ''2'')], ts)
        \<and> (\<forall>f' resp. ApplyBatch env0 fsm0 logs0 = Return (f', resp) \<longrightarrow> EntrySlice (resp ! 1) = [txErrorEntry e])"
    unfolding ix by auto
  then show ?thesis using w1 w2 w3 w4 w5 v w7 w8 by blast
qed

text \<open>
  Claim C5 as stated fails when the parser of the \<^verbatim>\<open>begin_tx\<close> value fails with an error
  of its own: the transaction \<open>txBadBegin\<close> has a second \<^verbatim>\<open>begin_tx\<close> at an interior
  position, but its first operation does not parse; \<^verbatim>\<open>applyBatchTxOps\<close> returns the
  parser's error, which is not a commit failure, and \<^verbatim>\<open>ApplyBatch\<close> panics instead of
  answering with the sentinel.
\<close>

theorem tx_shape_violation_rejected_counterexample:
  "length txBadBegin \<noteq> 0 \<and> OpType (txBadBegin ! 0) = beginTxOp \<and> shape_violated txBadBegin
   \<and> applyBatchTxOps env1 [(''a'', ''1'')] (applyState 0 0 1) txBadBegin
       = (Some (OtherError ''invalid begin_tx value''), [(''a'', ''1'')], setInTx (applyState 0 0 1))
   \<and> \<not> is_TxCommitFailure (OtherError ''invalid begin_tx value'')
   \<and> ApplyBatch env1 fsm0 [mkLog 1 LogCommand ''N''] = Panic ''failed to store data''"
proof -
  have "0 < (2::nat) \<and> 2 < length txBadBegin - 1 \<and> (OpType (txBadBegin ! 2) = beginTxOp \<or> OpType (txBadBegin ! 2) = commitTxOp)"
    by (simp add: demo_defs)
  then have h3: "shape_violated txBadBegin" unfolding shape_violated_def by blast
  have h4: "applyBatchTxOps env1 [(''a'', ''1'')] (applyState 0 0 1) txBadBegin
       = (Some (OtherError ''invalid begin_tx value''), [(''a'', ''1'')], setInTx (applyState 0 0 1))"
    by (simp add: demo_defs fsm_defs op_defs)
  have h5: "ApplyBatch env1 fsm0 [mkLog 1 LogCommand ''N''] = Panic ''failed to store data''"
    by (simp add: ApplyBatch_def demo_defs fsm_defs op_defs)
  show ?thesis using h3 h4 h5 by (simp add: demo_defs)
qed

text \<open>
  The hypotheses of C5 hold for a transaction with a second \<^verbatim>\<open>begin_tx\<close> at an interior
  position whose \<^verbatim>\<open>begin_tx\<close> value parses: it is rejected with the shape error, a commit
  failure, and its put of \<^verbatim>\<open>a\<close> is not applied. With the parser that fails, the same
  shape is rejected with the parser's error and the bucket is unchanged as well.
\<close>

theorem tx_shape_violation_rejected_witness:
  "length txNested \<noteq> 0 \<and> OpType (txNested ! 0) = beginTxOp \<and> shape_violated txNested
   \<and> parseBeginTxOpValue env0 (LogOperation.Value (txNested ! 0)) = Inr 0
   \<and> map (verifyOp env0 (setStartIndex (setInTx (applyState 0 0 (Log.Index (logs0 ! 0)))) 0) [(''a'', ''1'')]) txNested
        = [None, None, None, None]
   \<and> (\<exists>ts. applyBatchTxOps env0 [(''a'', ''1'')] (applyState 0 0 (Log.Index (logs0 ! 0))) txNested
             = (Some (txShapeError env0), [(''a'', ''1'')], ts))
   \<and> is_TxCommitFailure (txShapeError env0)
   \<and> OpType (last txBadBegin) = commitTxOp
   \<and> parseBeginTxOpValue env1 (LogOperation.Value (txBadBegin ! 0)) = Inl (OtherError ''invalid begin_tx value'')
   \<and> applyBatchTxOps env1 [(''a'', ''1'')] (applyState 0 0 (Log.Index (logs0 ! 0))) txBadBegin
       = (Some (OtherError ''invalid begin_tx value''), [(''a'', ''1'')], setInTx (applyState 0 0 (Log.Index (logs0 ! 0))))"
proof -
  have h1: "length txNested \<noteq> 0" and h2: "OpType (txNested ! 0) = beginTxOp"
    by (simp_all add: demo_defs)
  have "0 < (2::nat) \<and> 2 < length txNested - 1 \<and> (OpType (txNested ! 2) = beginTxOp \<or> OpType (txNested ! 2) = commitTxOp)"
    by (simp add: demo_defs)
  then have h3: "shape_violated txNested" unfolding shape_violated_def by blast
  have h4: "parseBeginTxOpValue env0 (LogOperation.Value (txNested ! 0)) = Inr 0"
    by (simp add: demo_defs)
  have h5: "\<forall>op\<in>set txNested. verifyOp env0 (setStartIndex (setInTx (applyState 0 0 (Log.Index (logs0 ! 0)))) 0) [(''a'', ''1'')] op = None"
    by (simp add: demo_defs op_defs verifyOp_def)
  have g1: "length txBadBegin \<noteq> 0" and g2: "OpType (txBadBegin ! 0) = beginTxOp"
    by (simp_all add: demo_defs)
  have "0 < (2::nat) \<and> 2 < length txBadBegin - 1 \<and> (OpType (txBadBegin ! 2) = beginTxOp \<or> OpType (txBadBegin ! 2) = commitTxOp)"
    by (simp add: demo_defs)
  then have g3: "shape_violated txBadBegin" unfolding shape_violated_def by blast
  have g4: "OpType (last txBadBegin) = commitTxOp" by (simp add: demo_defs)
  have g5: "parseBeginTxOpValue env1 (LogOperation.Value (txBadBegin ! 0)) = Inl (OtherError ''invalid begin_tx value'')"
    by (simp add: demo_defs)
  have a: "\<exists>ts. applyBatchTxOps env0 [(''a'', ''1'')] (applyState 0 0 (Log.Index (logs0 ! 0))) txNested
             = (Some (txShapeError env0), [(''a'', ''1'')], ts)"
    using tx_shape_violation_rejected [OF h1 h2 h3, of env0 "[(''a'', ''1'')]" 0 0 logs0] h4 h5 by blast
  have b: "is_TxCommitFailure (txShapeError env0)" by (simp add: txShapeError_def)
  have c: "applyBatchTxOps env1 [(''a'', ''1'')] (applyState 0 0 (Log.Index (logs0 ! 0))) txBadBegin
       = (Some (OtherError ''invalid begin_tx value''), [(''a'', ''1'')], setInTx (applyState 0 0 (Log.Index (logs0 ! 0))))"
    using tx_shape_violation_rejected [OF g1 g2 g3, of env1 "[(''a'', ''1'')]" 0 0 logs0] g4 g5 by blast
  have h6: "map (verifyOp env0 (setStartIndex (setInTx (applyState 0 0 (Log.Index (logs0 ! 0)))) 0) [(''a'', ''1'')]) txNested
        = [None, None, None, None]"
    by (simp add: demo_defs op_defs verifyOp_def)
  show ?thesis using h1 h2 h3 h4 h6 a b g4 g5 c by blast
qed

text \<open>
  The three hypotheses of C7 are met by concrete batches: a log of type \<^verbatim>\<open>LogNoop\<close>, a
  command whose data does not decode, and a non-transactional put with an empty key (which
  the store refuses) after an entry that is applied.
\<close>

theorem apply_failures_panic_witness:
  "(\<exists>l\<in>set [mkLog 1 LogCommand ''C'', mkLog 2 LogNoop []]. Type l \<noteq> LogCommand \<and> Type l \<noteq> LogConfiguration)
   \<and> (\<exists>m. ApplyBatch env0 fsm0 [mkLog 1 LogCommand ''C'', mkLog 2 LogNoop []] = Panic m)
   \<and> (\<exists>l\<in>set [mkLog 1 LogCommand ''?'']. Type l = LogCommand \<and> (\<exists>e. unmarshalLogData env0 (Data l) = Inl e))
   \<and> (\<exists>m. ApplyBatch env0 fsm0 [mkLog 1 LogCommand ''?''] = Panic m)
   \<and> decodeLogs env0 [mkLog 1 LogCommand ''C'', mkLog 2 LogCommand ''D''] = Inr ([CmdLogData putC] @ CmdLogData putEmptyKey # [], None)
   \<and> applyBatchNonTxOps env0 [(''a'', ''1''), (''c'', ''x'')] (applyState 0 1 2) putEmptyKey
        = (Some (OtherError ''key required''), [(''a'', ''1''), (''c'', ''x'')], applyState 0 1 2)
   \<and> (\<exists>m. ApplyBatch env0 fsm0 [mkLog 1 LogCommand ''C'', mkLog 2 LogCommand ''D''] = Panic m)"
proof -
  let ?l1 = "[mkLog 1 LogCommand ''C'', mkLog 2 LogNoop []]"
  let ?l2 = "[mkLog 1 LogCommand ''?'']"
  let ?l3 = "[mkLog 1 LogCommand ''C'', mkLog 2 LogCommand ''D'']"
  have a1: "\<exists>l\<in>set ?l1. Type l \<noteq> LogCommand \<and> Type l \<noteq> LogConfiguration"
    by (simp add: mkLog_def)
  have a2: "\<exists>l\<in>set ?l2. Type l = LogCommand \<and> (\<exists>e. unmarshalLogData env0 (Data l) = Inl e)"
    by (simp add: mkLog_def env0_def)
  have a3: "decodeLogs env0 ?l3 = Inr ([CmdLogData putC] @ CmdLogData putEmptyKey # [], None)"
    by (simp add: demo_defs)
  have a4: "length putEmptyKey = 0 \<or> OpType (putEmptyKey ! 0) \<noteq> beginTxOp"
    by (simp add: demo_defs op_defs)
  have a5: "applyCommands env0 ?l3 (latestIndex fsm0) 0 (dataBucket (dbFile fsm0), configBucket (dbFile fsm0)) [CmdLogData putC]
      = (None, ([(''a'', ''1''), (''c'', ''x'')], []), [[]])"
    by (simp add: demo_defs fsm_defs op_defs)
  have ix: "applyState (latestIndex fsm0) (length [CmdLogData putC]) (Log.Index (?l3 ! length [CmdLogData putC])) = applyState 0 1 2"
    by (simp add: demo_defs)
  have a6: "applyBatchNonTxOps env0 [(''a'', ''1''), (''c'', ''x'')] (applyState 0 1 2) putEmptyKey
        = (Some (OtherError ''key required''), [(''a'', ''1''), (''c'', ''x'')], applyState 0 1 2)"
    by (simp add: demo_defs fsm_defs op_defs)
  have p1: "\<exists>m. ApplyBatch env0 fsm0 ?l1 = Panic m"
    using apply_failures_panic [of ?l1 env0 fsm0] a1 by blast
  have p2: "\<exists>m. ApplyBatch env0 fsm0 ?l2 = Panic m"
    using apply_failures_panic [of ?l2 env0 fsm0] a2 by blast
  have p3: "\<exists>m. ApplyBatch env0 fsm0 ?l3 = Panic m"
    using apply_failures_panic [of ?l3 env0 fsm0] a3 a4 a5 a6 [folded ix] by blast
  show ?thesis using a1 a2 a3 a6 p1 p2 p3 by blast
qed

text \<open>
  C10 on concrete batches. The first returns: an operation of a type the loops do not
  handle (\<^verbatim>\<open>getOp\<close>), transaction A and the rejected transaction B each get a response
  with \<^verbatim>\<open>Success\<close> true; the slice of the first is empty, that of B is the sentinel.
  The second does not return: the non-transactional put with an empty key, which the store
  refuses, makes \<^verbatim>\<open>ApplyBatch\<close> panic.
\<close>

theorem apply_responses_all_success_witness:
  "(\<exists>f' resp. ApplyBatch env0 fsm0 [mkLog 1 LogCommand ''E'', mkLog 2 LogCommand ''A'', mkLog 3 LogCommand ''B''] = Return (f', resp)
       \<and> length resp = 3 \<and> (\<forall>r\<in>set resp. Success r)
       \<and> EntrySlice (resp ! 0) = []
       \<and> EntrySlice (resp ! 2) = [txErrorEntry (TxCommitFailure ''verification of read failed: transaction commit failure'')]
       \<and> dataBucket (dbFile f') = [(''a'', ''2'')])
   \<and> (\<exists>m. ApplyBatch env0 fsm0 [mkLog 1 LogCommand ''C'', mkLog 2 LogCommand ''D''] = Panic m)"
proof -
  let ?l = "[mkLog 1 LogCommand ''E'', mkLog 2 LogCommand ''A'', mkLog 3 LogCommand ''B'']"
  let ?l3 = "[mkLog 1 LogCommand ''C'', mkLog 2 LogCommand ''D'']"
  let ?e = "TxCommitFailure ''verification of read failed: transaction commit failure''"
  note T = apply_responses_all_success [of env0 fsm0 ?l]
  note T3 = apply_responses_all_success [of env0 fsm0 ?l3]
  have "\<exists>f' resp. ApplyBatch env0 fsm0 ?l = Return (f', resp) \<and> dataBucket (dbFile f') = [(''a'', ''2'')]"
    by (simp add: ApplyBatch_def demo_defs fsm_defs op_defs)
  then obtain f' resp where r: "ApplyBatch env0 fsm0 ?l = Return (f', resp)"
    and db: "dataBucket (dbFile f') = [(''a'', ''2'')]" by blast
  from T r have shape: "length resp = 3 \<and> (\<forall>r\<in>set resp. Success r)" by simp
  have d0: "decodeLogs env0 ?l = Inr ([] @ CmdLogData getA # [CmdLogData txA, CmdLogData txB], None)"
    by (simp add: demo_defs)
  have p0: "applyCommands env0 ?l (latestIndex fsm0) 0 (dataBucket (dbFile fsm0), configBucket (dbFile fsm0)) []
      = (None, ([(''a'', ''1'')], []), [])"
    by (simp add: demo_defs)
  have a0: "applyEntry env0 [(''a'', ''1'')] (applyState (latestIndex fsm0) (length ([]::command list)) (Log.Index (?l ! length ([]::command list)))) getA
      = (None, [(''a'', ''1'')], applyState 0 0 1)"
    by (simp add: applyEntry_def demo_defs fsm_defs op_defs)
  have s0: "EntrySlice (resp ! 0) = []"
    using T [THEN conjunct2, THEN conjunct1, rule_format, OF conjI [OF d0 conjI [OF p0 a0]]] r by simp
  have d2: "decodeLogs env0 ?l = Inr ([CmdLogData getA, CmdLogData txA] @ CmdLogData txB # [], None)"
    by (simp add: demo_defs)
  have p2: "applyCommands env0 ?l (latestIndex fsm0) 0 (dataBucket (dbFile fsm0), configBucket (dbFile fsm0)) [CmdLogData getA, CmdLogData txA]
      = (None, ([(''a'', ''2'')], []), [[], []])"
    by (simp add: demo_defs fsm_defs op_defs)
  have a2: "applyEntry env0 [(''a'', ''2'')] (applyState (latestIndex fsm0) (length [CmdLogData getA, CmdLogData txA])
        (Log.Index (?l ! length [CmdLogData getA, CmdLogData txA]))) txB
      = (Some ?e, [(''a'', ''2'')], setInTx (applyState 0 2 3))"
    by (simp add: applyEntry_def demo_defs fsm_defs op_defs)
  have g2: "getInTx (setInTx (applyState 0 2 3)) \<and> is_TxCommitFailure ?e"
    by (simp add: fsm_defs)
  have s2: "EntrySlice (resp ! 2) = [txErrorEntry ?e]"
    using T [THEN conjunct2, THEN conjunct1, rule_format, OF conjI [OF d2 conjI [OF p2 a2]]] r g2
    by (simp add: numeral_2_eq_2)
  have d3: "decodeLogs env0 ?l3 = Inr ([CmdLogData putC] @ CmdLogData putEmptyKey # [], None)"
    by (simp add: demo_defs)
  have p3: "applyCommands env0 ?l3 (latestIndex fsm0) 0 (dataBucket (dbFile fsm0), configBucket (dbFile fsm0)) [CmdLogData putC]
      = (None, ([(''a'', ''1''), (''c'', ''x'')], []), [[]])"
    by (simp add: demo_defs fsm_defs op_defs)
  have a3: "applyEntry env0 [(''a'', ''1''), (''c'', ''x'')] (applyState (latestIndex fsm0) (length [CmdLogData putC])
        (Log.Index (?l3 ! length [CmdLogData putC]))) putEmptyKey
      = (Some (OtherError ''key required''), [(''a'', ''1''), (''c'', ''x'')], applyState 0 1 2)"
    by (simp add: applyEntry_def demo_defs fsm_defs op_defs)
  have g3: "\<not> (getInTx (applyState 0 1 2) \<and> is_TxCommitFailure (OtherError ''key required''))"
    by (simp add: fsm_defs)
  have pn: "\<exists>m. ApplyBatch env0 fsm0 ?l3 = Panic m"
    using T3 [THEN conjunct2, THEN conjunct1, rule_format, OF conjI [OF d3 conjI [OF p3 a3]]] g3 by simp
  show ?thesis using r db shape s0 s2 pn by blast
qed

section \<open>Properties of the snapshot install\<close>

lemma map_of_bput: "map_of (bput k v b) k' = (if k' = k then Some v else map_of b k')"
  by (induction b) auto

lemma bucketGet_bucketPut:
  "bucketPut env b k v = Inr b' \<Longrightarrow> bucketGet b' k' = (if k' = k then Some v else bucketGet b k')"
  by (auto simp: bucketPut_def bucketGet_def map_of_bput split: option.splits)

lemma openDBFile_ok:
  "openDBFile renv f = (None, f') \<Longrightarrow> dbFile f' = dbFile f \<and> desiredSuffrage f' = desiredSuffrage f \<and> dbOpen f'"
  by (auto simp: openDBFile_def split: option.splits sum.splits prod.splits)

lemma persistDesiredSuffrage_ok:
  assumes "persistDesiredSuffrage env renv f c = (None, f')"
  shows "\<exists>bs. marshalLocalNodeConfig renv c = Inr bs
     \<and> bucketGet (configBucket (dbFile f')) localNodeConfigKey = Some bs
     \<and> (\<forall>k. k \<noteq> localNodeConfigKey \<longrightarrow> bucketGet (configBucket (dbFile f')) k = bucketGet (configBucket (dbFile f)) k)
     \<and> dataBucket (dbFile f') = dataBucket (dbFile f) \<and> desiredSuffrage f' = desiredSuffrage f \<and> dbOpen f' = dbOpen f"
proof -
  from assms obtain bs cb where m: "marshalLocalNodeConfig renv c = Inr bs"
    and p: "bucketPut env (configBucket (dbFile f)) localNodeConfigKey bs = Inr cb"
    and f': "f' = f\<lparr>dbFile := (dbFile f)\<lparr>configBucket := cb\<rparr>\<rparr>"
    by (auto simp: persistDesiredSuffrage_def split: sum.splits if_splits)
  show ?thesis using m f' bucketGet_bucketPut [OF p] by simp
qed

text \<open>
  Claim C6. A \<^verbatim>\<open>Restore\<close> that is not disabled by \<^verbatim>\<open>noopRestore\<close> and returns without
  error, on a database that held a \<^verbatim>\<open>local_node_config\<close> entry: the reader was a snapshot
  installer; the entry decoded before the database was closed is written again, after the
  installer's file has replaced the database file and the file has been reopened; the
  in-memory desired suffrage is the entry's; and everything else in the reopened database
  (the data bucket, every other key of the config bucket) is the snapshot's.
\<close>

theorem restore_keeps_local_node_config:
  assumes "Restore env renv f r = (None, f')"
    and "\<not> noopRestore f"
    and "bucketGet (configBucket (dbFile f)) localNodeConfigKey = Some v"
  shows "\<exists>installer c bs. snapshotInstaller renv r = Inr installer
       \<and> unmarshalLocalNodeConfig renv v = Inr c
       \<and> marshalLocalNodeConfig renv c = Inr bs
       \<and> bucketGet (configBucket (dbFile f')) localNodeConfigKey = Some bs
       \<and> desiredSuffrage f' = DesiredSuffrage c
       \<and> dataBucket (dbFile f') = dataBucket (snapshotDB installer)
       \<and> (\<forall>k. k \<noteq> localNodeConfigKey \<longrightarrow>
             bucketGet (configBucket (dbFile f')) k = bucketGet (configBucket (snapshotDB installer)) k)
       \<and> dbOpen f'"
proof -
  from assms(1,2) obtain installer where i: "snapshotInstaller renv r = Inr installer"
    by (auto simp: Restore_def split: sum.splits)
  from assms(1,2) i obtain lnConfig f1 where l: "localNodeConfig renv f = (Inr lnConfig, f1)"
    by (auto simp: Restore_def split: sum.splits prod.splits)
  from l assms(3) obtain c where c: "unmarshalLocalNodeConfig renv v = Inr c" "lnConfig = Some c"
    and f1: "f1 = f\<lparr>desiredSuffrage := DesiredSuffrage c\<rparr>"
    by (auto simp: localNodeConfig_def split: if_splits sum.splits)
  have cl: "closeError renv = None"
    using assms(1,2) i l by (auto simp: Restore_def split: option.splits)
  have ie: "installError installer = None"
    using assms(1,2) i l cl c(2)
    by (auto simp: Restore_def ErrorOrNil_def Let_def split: option.splits prod.splits if_splits)
  let ?f3 = "f1\<lparr>dbOpen := False, dbFile := snapshotDB installer\<rparr>"
  obtain e4 f4 where o: "openDBFile renv ?f3 = (e4, f4)" by (metis prod.exhaust)
  have e4: "e4 = None"
    using assms(1,2) i l cl c(2) ie o
    by (auto simp: Restore_def ErrorOrNil_def Let_def split: option.splits prod.splits if_splits)
  have p: "persistDesiredSuffrage env renv f4 c = (None, f')"
    using assms(1,2) i l cl c(2) ie o e4
    by (auto simp: Restore_def ErrorOrNil_def Let_def split: option.splits prod.splits if_splits)
  from openDBFile_ok [OF o [unfolded e4]]
  have f4: "dbFile f4 = snapshotDB installer" "desiredSuffrage f4 = DesiredSuffrage c" "dbOpen f4"
    using f1 by simp_all
  from persistDesiredSuffrage_ok [OF p] f4 i c(1) show ?thesis by auto
qed

text \<open>
  The hypotheses of C6 hold for a node whose stored intent is \<^verbatim>\<open>non-voter\<close>: after the
  restore the entry is there again, the node's desired suffrage is \<^verbatim>\<open>non-voter\<close>, and the
  data is the snapshot's.
\<close>

theorem restore_keeps_local_node_config_witness:
  "(\<exists>f'. Restore env0 renv0 fsm1 (ReadCloserWrapper (BoltSnapshotInstaller installer0)) = (None, f')
      \<and> \<not> noopRestore fsm1
      \<and> bucketGet (configBucket (dbFile fsm1)) localNodeConfigKey = Some ''non-voter''
      \<and> bucketGet (configBucket (dbFile f')) localNodeConfigKey = Some ''non-voter''
      \<and> desiredSuffrage f' = ''non-voter''
      \<and> dataBucket (dbFile f') = [(''a'', ''5''), (''b'', ''6'')])"
proof -
  let ?r = "ReadCloserWrapper (BoltSnapshotInstaller installer0)"
  have "\<exists>f'. Restore env0 renv0 fsm1 ?r = (None, f')"
    by (simp add: Restore_def localNodeConfig_def persistDesiredSuffrage_def openDBFile_def ErrorOrNil_def
        bucketGet_def bucketPut_def env0_def renv0_def fsm1_def installer0_def
        localNodeConfigKey_def latestIndexKey_def latestConfigKey_def)
  then obtain f' where r: "Restore env0 renv0 fsm1 ?r = (None, f')" by blast
  have n: "\<not> noopRestore fsm1" by (simp add: fsm1_def)
  have g: "bucketGet (configBucket (dbFile fsm1)) localNodeConfigKey = Some ''non-voter''"
    by (simp add: fsm1_def bucketGet_def localNodeConfigKey_def)
  from restore_keeps_local_node_config [OF r n g]
  have "bucketGet (configBucket (dbFile f')) localNodeConfigKey = Some ''non-voter''
      \<and> desiredSuffrage f' = ''non-voter'' \<and> dataBucket (dbFile f') = [(''a'', ''5''), (''b'', ''6'')]"
    by (auto simp: renv0_def installer0_def)
  then show ?thesis using r n g by blast
qed

section \<open>Properties of standby redirection\<close>

text \<open>
  Claim C8, as amended. A request with a non-empty \<^verbatim>\<open>X-Vault-No-Request-Forwarding\<close>
  header is never forwarded: \<^verbatim>\<open>forwardRequest\<close> answers as \<^verbatim>\<open>respondStandby\<close> does.
  When the leader lookup succeeds with a non-empty address that parses, the answer is 307
  with the scheme (\<^verbatim>\<open>https\<close> if the address has none) and host of the leader's address
  and the path and query of the request; when it succeeds with an empty address, or high
  availability is not enabled, the answer is 503; when the lookup fails otherwise, or the
  address does not parse, the answer is 500. On a node that is not the leader and knows a
  leader address, \<^verbatim>\<open>handleRequestForwarding\<close> hands the request to \<^verbatim>\<open>forwardRequest\<close>.
\<close>

theorem no_forwarding_header_redirects:
  assumes "Header r NoRequestForwardingHeaderName \<noteq> []"
  shows "forwardRequest core r = respondStandby core (reqURL r)
     \<and> (\<forall>status body. forwardRequest core r \<noteq> Forwarded status body)
     \<and> (\<forall>il addr ca u. Leader core = (il, addr, ca, None) \<and> addr \<noteq> [] \<and> urlParse core addr = Inr u \<longrightarrow>
           forwardRequest core r = Redirect 307
              \<lparr>Scheme = (if Scheme u = [] then ''https'' else Scheme u), Host = Host u,
               Path = Path (reqURL r), RawQuery = RawQuery (reqURL r)\<rparr>)
     \<and> (\<forall>il ca. Leader core = (il, [], ca, None) \<longrightarrow>
           forwardRequest core r = RespondError 503 ''no active Vault instance found'')
     \<and> (\<forall>il addr ca. Leader core = (il, addr, ca, Some ErrHANotEnabled) \<longrightarrow>
           forwardRequest core r = RespondError 503 ''node is not active'')
     \<and> (\<forall>il addr ca e. Leader core = (il, addr, ca, Some e) \<and> e \<noteq> ErrHANotEnabled \<longrightarrow>
           forwardRequest core r = RespondError 500 (core_error_text e))
     \<and> (\<forall>il addr ca e. Leader core = (il, addr, ca, None) \<and> addr \<noteq> [] \<and> urlParse core addr = Inl e \<longrightarrow>
           forwardRequest core r = RespondError 500 (core_error_text e))
     \<and> (\<forall>addr ca. addr \<noteq> [] \<longrightarrow> handleRequestForwarding core (False, addr, ca, None) r = forwardRequest core r)"
proof -
  have eq: "forwardRequest core r = respondStandby core (reqURL r)"
    using assms by (simp add: forwardRequest_def)
  have nf: "\<forall>status body. forwardRequest core r \<noteq> Forwarded status body"
    unfolding eq by (simp add: respondStandby_def split: prod.splits option.splits sum.splits)
  have c1: "\<forall>il addr ca u. Leader core = (il, addr, ca, None) \<and> addr \<noteq> [] \<and> urlParse core addr = Inr u \<longrightarrow>
           forwardRequest core r = Redirect 307
              \<lparr>Scheme = (if Scheme u = [] then ''https'' else Scheme u), Host = Host u,
               Path = Path (reqURL r), RawQuery = RawQuery (reqURL r)\<rparr>"
    unfolding eq by (simp add: respondStandby_def)
  have c2: "\<forall>il ca. Leader core = (il, [], ca, None) \<longrightarrow>
           forwardRequest core r = RespondError 503 ''no active Vault instance found''"
    unfolding eq by (simp add: respondStandby_def)
  have c3: "\<forall>il addr ca. Leader core = (il, addr, ca, Some ErrHANotEnabled) \<longrightarrow>
           forwardRequest core r = RespondError 503 ''node is not active''"
    unfolding eq by (simp add: respondStandby_def)
  have c4: "\<forall>il addr ca e. Leader core = (il, addr, ca, Some e) \<and> e \<noteq> ErrHANotEnabled \<longrightarrow>
           forwardRequest core r = RespondError 500 (core_error_text e)"
    unfolding eq by (simp add: respondStandby_def)
  have c5: "\<forall>il addr ca e. Leader core = (il, addr, ca, None) \<and> addr \<noteq> [] \<and> urlParse core addr = Inl e \<longrightarrow>
           forwardRequest core r = RespondError 500 (core_error_text e)"
    unfolding eq by (simp add: respondStandby_def)
  have c6: "\<forall>addr ca. addr \<noteq> [] \<longrightarrow> handleRequestForwarding core (False, addr, ca, None) r = forwardRequest core r"
    by (simp add: handleRequestForwarding_def)
  show ?thesis
    by (intro conjI eq nf c1 c2 c3 c4 c5 c6)
qed

text \<open>
  Claim C8 as stated fails: on a standby whose leader lookup fails with an error other than
  \<^verbatim>\<open>ErrHANotEnabled\<close>, no leader address is known, and the answer to a request with the
  header set is 500, not 503.
\<close>

theorem no_forwarding_header_redirects_counterexample:
  "Header request0 NoRequestForwardingHeaderName \<noteq> []
   \<and> fst (snd (Leader core_lookup_fails)) = []
   \<and> forwardRequest core_lookup_fails request0 = RespondError 500 ''failed to read the leader entry''"
  by (simp add: request0_def core_lookup_fails_def NoRequestForwardingHeaderName_def
      forwardRequest_def respondStandby_def)

text \<open>
  The hypothesis of C8 holds for a request to a standby that knows its leader: the answer
  is the redirect to the leader's host, with the default scheme and the request's path and
  query.
\<close>

theorem no_forwarding_header_redirects_witness:
  "Header request0 NoRequestForwardingHeaderName \<noteq> []
   \<and> forwardRequest core_standby request0 = Redirect 307
        \<lparr>Scheme = ''https'', Host = ''x.example:8200'', Path = ''/v1/secret/data/k'', RawQuery = ''version=2''\<rparr>"
proof -
  have h: "Header request0 NoRequestForwardingHeaderName \<noteq> []"
    by (simp add: request0_def NoRequestForwardingHeaderName_def)
  have l: "Leader core_standby = (False, ''//x.example:8200'', ''https://x.example:8201'', None)
      \<and> ''//x.example:8200'' \<noteq> []
      \<and> urlParse core_standby ''//x.example:8200'' = Inr \<lparr>Scheme = [], Host = ''x.example:8200'', Path = [], RawQuery = []\<rparr>"
    by (simp add: core_standby_def)
  from no_forwarding_header_redirects [OF h, of core_standby] l
  have "forwardRequest core_standby request0 = Redirect 307
      \<lparr>Scheme = (if Scheme \<lparr>Scheme = [], Host = ''x.example:8200'', Path = [], RawQuery = []\<rparr> = [] then ''https''
                 else Scheme \<lparr>Scheme = [], Host = ''x.example:8200'', Path = [], RawQuery = []\<rparr>),
       Host = Host \<lparr>Scheme = [], Host = ''x.example:8200'', Path = [], RawQuery = []\<rparr>,
       Path = Path (reqURL request0), RawQuery = RawQuery (reqURL request0)\<rparr>"
    by (elim conjE allE [of _ False] allE [of _ "''//x.example:8200''"] allE [of _ "''https://x.example:8201''"]) simp
  then show ?thesis using h by (simp add: request0_def)
qed

section \<open>Properties of core initialization\<close>

lemma barrierUnseal_cases:
  "barrierUnseal env st = (Some e, st1) \<Longrightarrow> st1 = st"
  "barrierUnseal env st = (None, st1) \<Longrightarrow> st1 = st\<lparr>sealed := False\<rparr> \<and> barrierUnsealError env = None"
  by (auto simp: barrierUnseal_def split: option.splits)

lemma initializeInternal_state:
  "snd (initializeInternal env p st) = st \<or> snd (initializeInternal env p st) = st\<lparr>sealed := True\<rparr>"
proof (cases "init_config env p")
  case (Inl e)
  then show ?thesis by (simp add: initializeInternal_def)
next
  case c: (Inr bc)
  show ?thesis
  proof (cases "init_guard env")
    case (Inl e)
    then show ?thesis using c by (simp add: initializeInternal_def)
  next
    case g: (Inr u)
    show ?thesis
    proof (cases "init_barrier env bc")
      case (Inl e)
      then show ?thesis using c g by (simp add: initializeInternal_def)
    next
      case k: (Inr keys)
      show ?thesis
      proof (cases "barrierUnsealError env")
        case None
        then show ?thesis using c g k by (simp add: initializeInternal_def barrierUnseal_def barrierSeal_def)
      next
        case (Some e)
        then show ?thesis using c g k by (simp add: initializeInternal_def barrierUnseal_def)
      qed
    qed
  qed
qed

lemma Initialize_state:
  "snd (Initialize env p st) = snd (initializeInternal env p st)
   \<or> (RecoveryKeySupported env \<and> (\<exists>rc. GetRecoveryConfig env = Inr rc \<and> SealConfig.SecretShares rc = 0)
       \<and> snd (Initialize env p st) = snd (UnsealWithStoredKeys env (snd (initializeInternal env p st))))"
proof -
  obtain r st1 where i: "initializeInternal env p st = (r, st1)" by (metis prod.exhaust)
  show ?thesis
  proof (cases r)
    case (Inl e)
    then show ?thesis using i by (simp add: Initialize_def)
  next
    case (Inr res)
    show ?thesis
    proof (cases "GetRecoveryConfig env")
      case (Inl e)
      then show ?thesis using i Inr by (simp add: Initialize_def)
    next
      case rc: (Inr rc)
      then show ?thesis using i Inr by (simp add: Initialize_def)
    qed
  qed
qed

text \<open>
  Claim C9, as amended. \<^verbatim>\<open>initializeInternal\<close> leaves the barrier as it found it or
  sealed; once it has unsealed the barrier, it returns with the barrier sealed, whether
  the rest of the initialization succeeds or fails. \<^verbatim>\<open>Initialize\<close> returns with the
  barrier sealed as well, unless the seal supports recovery keys and the stored recovery
  configuration has no shares: then it goes on to \<^verbatim>\<open>UnsealWithStoredKeys\<close>, and the
  barrier is as that call leaves it.
\<close>

theorem initialize_reseals_barrier:
  "(\<forall>bc u keys. init_config env p = Inr bc \<and> init_guard env = Inr u \<and> init_barrier env bc = Inr keys
        \<and> barrierUnsealError env = None \<longrightarrow>
        initializeInternal env p st = (init_unsealed env p keys, st\<lparr>sealed := True\<rparr>))
   \<and> (sealed st \<longrightarrow> sealed (snd (initializeInternal env p st)))
   \<and> (sealed st \<longrightarrow> \<not> (RecoveryKeySupported env \<and> (\<exists>rc. GetRecoveryConfig env = Inr rc \<and> SealConfig.SecretShares rc = 0))
        \<longrightarrow> sealed (snd (Initialize env p st)))
   \<and> (RecoveryKeySupported env \<and> (\<exists>rc. GetRecoveryConfig env = Inr rc \<and> SealConfig.SecretShares rc = 0)
        \<longrightarrow> (\<forall>res st1. initializeInternal env p st = (Inr res, st1) \<longrightarrow>
               Initialize env p st = (Inr res, snd (UnsealWithStoredKeys env st1))))"
proof (intro conjI allI impI)
  fix bc u keys
  assume "init_config env p = Inr bc \<and> init_guard env = Inr u \<and> init_barrier env bc = Inr keys
        \<and> barrierUnsealError env = None"
  then show "initializeInternal env p st = (init_unsealed env p keys, st\<lparr>sealed := True\<rparr>)"
    by (simp add: initializeInternal_def barrierUnseal_def barrierSeal_def)
next
  assume "sealed st"
  then show "sealed (snd (initializeInternal env p st))"
    using initializeInternal_state [of env p st] by auto
next
  assume s: "sealed st"
    and n: "\<not> (RecoveryKeySupported env \<and> (\<exists>rc. GetRecoveryConfig env = Inr rc \<and> SealConfig.SecretShares rc = 0))"
  have "snd (Initialize env p st) = snd (initializeInternal env p st)"
    using Initialize_state [of env p st] n by blast
  then show "sealed (snd (Initialize env p st))"
    using initializeInternal_state [of env p st] s by auto
next
  fix res st1
  assume "RecoveryKeySupported env \<and> (\<exists>rc. GetRecoveryConfig env = Inr rc \<and> SealConfig.SecretShares rc = 0)"
    and "initializeInternal env p st = (Inr res, st1)"
  then show "Initialize env p st = (Inr res, snd (UnsealWithStoredKeys env st1))"
    by (auto simp: Initialize_def)
qed

lemmas init_defs = Initialize_def initializeInternal_def init_config_def init_guard_def init_barrier_def
  init_unsealed_def barrierUnseal_def barrierSeal_def UnsealWithStoredKeys_def orFail_def wrapErr_def

text \<open>
  Claim C9 as stated fails: on an auto-unseal seal initialized with no recovery shares,
  \<^verbatim>\<open>Initialize\<close> succeeds and returns with the barrier unsealed, so that the node can
  be used at once.
\<close>

theorem initialize_reseals_barrier_counterexample:
  "\<exists>res. Initialize env_auto params0 \<lparr>sealed = True\<rparr> = (Inr res, \<lparr>sealed = False\<rparr>)"
  by (simp add: init_defs env_auto_def env_shamir_def params0_def)

text \<open>
  On a Shamir seal the hypotheses of C9 hold and every step succeeds: the barrier is
  unsealed during initialization and sealed when \<^verbatim>\<open>Initialize\<close> returns the shares and
  the root token.
\<close>

theorem initialize_reseals_barrier_witness:
  "sealed \<lparr>sealed = True\<rparr>
   \<and> \<not> (RecoveryKeySupported env_shamir \<and> (\<exists>rc. GetRecoveryConfig env_shamir = Inr rc \<and> SealConfig.SecretShares rc = 0))
   \<and> barrierUnsealError env_shamir = None
   \<and> sealed (snd (Initialize env_shamir params0 \<lparr>sealed = True\<rparr>))
   \<and> fst (Initialize env_shamir params0 \<lparr>sealed = True\<rparr>)
       = Inr \<lparr>InitResult.SecretShares = [''s1'', ''s2'', ''s3''], RecoveryShares = [], RootToken = ''s.root''\<rparr>"
proof -
  have s: "sealed \<lparr>sealed = True\<rparr>" by simp
  have n: "\<not> (RecoveryKeySupported env_shamir \<and> (\<exists>rc. GetRecoveryConfig env_shamir = Inr rc \<and> SealConfig.SecretShares rc = 0))"
    by (simp add: env_shamir_def)
  have u: "barrierUnsealError env_shamir = None" by (simp add: env_shamir_def)
  have r: "fst (Initialize env_shamir params0 \<lparr>sealed = True\<rparr>)
       = Inr \<lparr>InitResult.SecretShares = [''s1'', ''s2'', ''s3''], RecoveryShares = [], RootToken = ''s.root''\<rparr>"
    by (simp add: init_defs env_shamir_def params0_def)
  from initialize_reseals_barrier [of env_shamir params0 "\<lparr>sealed = True\<rparr>"] s n
  have "sealed (snd (Initialize env_shamir params0 \<lparr>sealed = True\<rparr>))" by blast
  then show ?thesis using s n u r by blast
qed

end
